theory Spec2Isabelle
  imports Main
begin

section \<open>JavaScript strings\<close>

text \<open>
  A JavaScript string is a sequence of UTF-16 code units. This development models the
  code units below 256 (Latin-1), one \<^typ>\<open>char\<close> each; \<^term>\<open>of_char c :: nat\<close> is the
  code unit. Every pattern of \<^verbatim>\<open>chatbot.js\<close> is written with ASCII characters only.
\<close>

definition cu :: "char \<Rightarrow> nat" where
  "cu c = of_char c"

text \<open>\<^verbatim>\<open>\s\<close> and \<^verbatim>\<open>String.prototype.trim\<close>: WhiteSpace and LineTerminator
  (TAB, LF, VT, FF, CR, SP, NBSP in this range).\<close>

definition is_space :: "char \<Rightarrow> bool" where
  "is_space c = (cu c \<in> {9, 10, 11, 12, 13, 32, 160})"

text \<open>\<^verbatim>\<open>.\<close> matches everything but a LineTerminator (LF, CR in this range).\<close>

definition is_dot :: "char \<Rightarrow> bool" where
  "is_dot c = (cu c \<notin> {10, 13})"

definition is_digit :: "char \<Rightarrow> bool" where
  "is_digit c = (48 \<le> cu c \<and> cu c \<le> 57)"

definition is_ascii_lower :: "char \<Rightarrow> bool" where
  "is_ascii_lower c = (97 \<le> cu c \<and> cu c \<le> 122)"

definition is_ascii_upper :: "char \<Rightarrow> bool" where
  "is_ascii_upper c = (65 \<le> cu c \<and> cu c \<le> 90)"

text \<open>\<^verbatim>\<open>\w\<close> is \<^verbatim>\<open>[A-Za-z0-9_]\<close>.\<close>

definition is_word :: "char \<Rightarrow> bool" where
  "is_word c = (is_ascii_lower c \<or> is_ascii_upper c \<or> is_digit c \<or> c = CHR ''_'')"

text \<open>\<^verbatim>\<open>String.prototype.toLowerCase\<close> on Latin-1: A-Z and the accented capitals
  0xC0-0xDE (without the multiplication sign 0xD7) move up by 32.\<close>

definition toLowerCase_chr :: "char \<Rightarrow> char" where
  "toLowerCase_chr c =
     (if is_ascii_upper c \<or> (192 \<le> cu c \<and> cu c \<le> 222 \<and> cu c \<noteq> 215)
      then char_of (cu c + 32) else c)"

definition toLowerCase :: "string \<Rightarrow> string" where
  "toLowerCase s = map toLowerCase_chr s"

text \<open>Canonicalize of the regular-expression semantics under the \<^verbatim>\<open>i\<close> flag (no
  \<^verbatim>\<open>u\<close> flag): the upper-case form when it is a single code unit. Within Latin-1 that
  moves a-z and 0xE0-0xFE (without the division sign 0xF7) down by 32; the upper-case
  forms of 0xB5 and 0xFF lie outside Latin-1 and are shared with no Latin-1 character,
  and 0xDF has a two-unit upper-case form, so the three stay as they are.\<close>

definition canonicalize :: "char \<Rightarrow> char" where
  "canonicalize c =
     (if is_ascii_lower c \<or> (224 \<le> cu c \<and> cu c \<le> 254 \<and> cu c \<noteq> 247)
      then char_of (cu c - 32) else c)"

text \<open>\<^verbatim>\<open>String.prototype.trim\<close>.\<close>

definition trim :: "string \<Rightarrow> string" where
  "trim s = rev (dropWhile is_space (rev (dropWhile is_space s)))"

section \<open>Regular expressions\<close>

text \<open>
  The fragment of ECMAScript patterns that \<^verbatim>\<open>chatbot.js\<close> uses: literals, \<^verbatim>\<open>\s\<close>,
  \<^verbatim>\<open>.\<close>, sequence, alternation, the greedy \<^verbatim>\<open>?\<close>, the quantifiers \<^verbatim>\<open>+\<close>,
  \<^verbatim>\<open>*\<close> and the lazy \<^verbatim>\<open>+?\<close> on a single character class, capture groups, \<^verbatim>\<open>^\<close>,
  \<^verbatim>\<open>$\<close> and \<^verbatim>\<open>\b\<close>.
\<close>

datatype atom = Space | Dot

datatype rx =
    Lit string
  | Seq rx rx
  | Alt rx rx
  | Opt rx
  | Plus atom
  | Star atom
  | PlusLazy atom
  | Group nat rx
  | Bol
  | Eol
  | WordB

fun atom_ok :: "atom \<Rightarrow> char \<Rightarrow> bool" where
  "atom_ok Space c = is_space c"
| "atom_ok Dot c = is_dot c"

text \<open>One literal character; \<open>ic\<close> is the \<^verbatim>\<open>i\<close> flag.\<close>

definition chr_eq :: "bool \<Rightarrow> char \<Rightarrow> char \<Rightarrow> bool" where
  "chr_eq ic p c = (if ic then canonicalize p = canonicalize c else p = c)"

text \<open>A matcher state: the character before the current position (\<open>None\<close> at index 0),
  the rest of the input, and the captures so far.\<close>

type_synonym mstate = "char option \<times> string \<times> (nat \<rightharpoonup> string)"

fun lit_match :: "bool \<Rightarrow> string \<Rightarrow> char option \<Rightarrow> string \<Rightarrow> (char option \<times> string) option" where
  "lit_match ic [] p s = Some (p, s)"
| "lit_match ic (a # as) p [] = None"
| "lit_match ic (a # as) p (c # cs) = (if chr_eq ic a c then lit_match ic as (Some c) cs else None)"

text \<open>Backtracking in priority order: a greedy quantifier tries one more repetition
  before the continuation \<open>k\<close>, a lazy one tries the continuation first.\<close>

fun plus_greedy :: "(char \<Rightarrow> bool) \<Rightarrow> string \<Rightarrow> (char \<Rightarrow> string \<Rightarrow> 'a option) \<Rightarrow> 'a option" where
  "plus_greedy P [] k = None"
| "plus_greedy P (c # cs) k =
     (if P c then (case plus_greedy P cs k of Some r \<Rightarrow> Some r | None \<Rightarrow> k c cs) else None)"

fun plus_lazy :: "(char \<Rightarrow> bool) \<Rightarrow> string \<Rightarrow> (char \<Rightarrow> string \<Rightarrow> 'a option) \<Rightarrow> 'a option" where
  "plus_lazy P [] k = None"
| "plus_lazy P (c # cs) k =
     (if P c then (case k c cs of Some r \<Rightarrow> Some r | None \<Rightarrow> plus_lazy P cs k) else None)"

definition at_boundary :: "char option \<Rightarrow> string \<Rightarrow> bool" where
  "at_boundary p s =
     ((case p of None \<Rightarrow> False | Some c \<Rightarrow> is_word c) \<noteq> (case s of [] \<Rightarrow> False | c # _ \<Rightarrow> is_word c))"

fun rx_match :: "bool \<Rightarrow> rx \<Rightarrow> mstate \<Rightarrow> (mstate \<Rightarrow> 'a option) \<Rightarrow> 'a option" where
  "rx_match ic (Lit w) (p, s, caps) k =
     (case lit_match ic w p s of None \<Rightarrow> None | Some (p', s') \<Rightarrow> k (p', s', caps))"
| "rx_match ic (Seq a b) st k = rx_match ic a st (\<lambda>st'. rx_match ic b st' k)"
| "rx_match ic (Alt a b) st k =
     (case rx_match ic a st k of Some r \<Rightarrow> Some r | None \<Rightarrow> rx_match ic b st k)"
| "rx_match ic (Opt a) st k =
     (case rx_match ic a st k of Some r \<Rightarrow> Some r | None \<Rightarrow> k st)"
| "rx_match ic (Plus a) (p, s, caps) k =
     plus_greedy (atom_ok a) s (\<lambda>c s'. k (Some c, s', caps))"
| "rx_match ic (Star a) (p, s, caps) k =
     (case plus_greedy (atom_ok a) s (\<lambda>c s'. k (Some c, s', caps)) of
        Some r \<Rightarrow> Some r | None \<Rightarrow> k (p, s, caps))"
| "rx_match ic (PlusLazy a) (p, s, caps) k =
     plus_lazy (atom_ok a) s (\<lambda>c s'. k (Some c, s', caps))"
| "rx_match ic (Group n a) (p, s, caps) k =
     rx_match ic a (p, s, caps)
       (\<lambda>(p', s', caps'). k (p', s', caps'(n \<mapsto> take (length s - length s') s)))"
| "rx_match ic Bol (p, s, caps) k = (if p = None then k (p, s, caps) else None)"
| "rx_match ic Eol (p, s, caps) k = (if s = [] then k (p, s, caps) else None)"
| "rx_match ic WordB (p, s, caps) k = (if at_boundary p s then k (p, s, caps) else None)"

text \<open>The search of \<^verbatim>\<open>RegExp.prototype.exec\<close>: the first start index, from the left, at
  which the pattern matches. The result is the text skipped and the final state.\<close>

fun rx_search :: "bool \<Rightarrow> rx \<Rightarrow> char option \<Rightarrow> string \<Rightarrow> (string \<times> mstate) option" where
  "rx_search ic r p [] = (case rx_match ic r (p, [], Map.empty) Some of
       Some st \<Rightarrow> Some ([], st) | None \<Rightarrow> None)"
| "rx_search ic r p (c # cs) = (case rx_match ic r (p, c # cs, Map.empty) Some of
       Some st \<Rightarrow> Some ([], st)
     | None \<Rightarrow> (case rx_search ic r (Some c) cs of
         None \<Rightarrow> None | Some (pre, st) \<Rightarrow> Some (c # pre, st)))"

text \<open>\<^verbatim>\<open>re.test(s)\<close>, and \<^verbatim>\<open>s.match(re)\<close> for a pattern without the \<^verbatim>\<open>g\<close> flag:
  \<open>None\<close> is \<^verbatim>\<open>null\<close>, otherwise the captures (an unset group is \<^verbatim>\<open>undefined\<close>).\<close>

definition rx_test :: "bool \<Rightarrow> rx \<Rightarrow> string \<Rightarrow> bool" where
  "rx_test ic r s = (rx_search ic r None s \<noteq> None)"

definition js_match :: "bool \<Rightarrow> rx \<Rightarrow> string \<Rightarrow> (nat \<rightharpoonup> string) option" where
  "js_match ic r s = (case rx_search ic r None s of
       None \<Rightarrow> None | Some (pre, p, rest, caps) \<Rightarrow> Some caps)"


text \<open>\<^verbatim>\<open>s.split(re)\<close>. The pieces between successive matches; \<open>acc\<close> is the piece being
  read, reversed. None of the separators of \<^verbatim>\<open>chatbot.js\<close> matches the empty string, so
  a match always consumes input.\<close>

function split_go :: "bool \<Rightarrow> rx \<Rightarrow> char option \<Rightarrow> string \<Rightarrow> string \<Rightarrow> string list" where
  "split_go ic r p acc [] = [rev acc]"
| "split_go ic r p acc (c # cs) =
     (case rx_match ic r (p, c # cs, Map.empty) Some of
        None \<Rightarrow> split_go ic r (Some c) (c # acc) cs
      | Some (p', s', caps) \<Rightarrow>
          if length s' \<le> length cs then rev acc # split_go ic r p' [] s'
          else split_go ic r (Some c) (c # acc) cs)"
  by pat_completeness auto
termination
  by (relation "measure (\<lambda>(ic, r, p, acc, s). length s)") auto

definition split_rx :: "bool \<Rightarrow> rx \<Rightarrow> string \<Rightarrow> string list" where
  "split_rx ic r s = split_go ic r None [] s"

text \<open>\<^verbatim>\<open>s.split(sep)\<close> for a separator string of one character.\<close>

fun split_chr_go :: "char \<Rightarrow> string \<Rightarrow> string \<Rightarrow> string list" where
  "split_chr_go d acc [] = [rev acc]"
| "split_chr_go d acc (c # cs) =
     (if c = d then rev acc # split_chr_go d [] cs else split_chr_go d (c # acc) cs)"

definition split_chr :: "char \<Rightarrow> string \<Rightarrow> string list" where
  "split_chr d s = split_chr_go d [] s"

text \<open>\<^verbatim>\<open>xs.join(sep)\<close> on strings.\<close>

fun join :: "string \<Rightarrow> string list \<Rightarrow> string" where
  "join sep [] = []"
| "join sep [x] = x"
| "join sep (x # y # ys) = x @ sep @ join sep (y # ys)"

text \<open>A character class \<^verbatim>\<open>[...]\<close> given by its members, and
  \<^verbatim>\<open>s.replace(/[...]/g, "")\<close>, \<^verbatim>\<open>s.replace(/[^...]/g, "")\<close>: every character in
  (outside) the class is deleted.\<close>

definition in_class :: "bool \<Rightarrow> string \<Rightarrow> char \<Rightarrow> bool" where
  "in_class ic members c = (\<exists>a \<in> set members. chr_eq ic a c)"

definition delete_class :: "bool \<Rightarrow> string \<Rightarrow> string \<Rightarrow> string" where
  "delete_class ic members s = filter (\<lambda>c. \<not> in_class ic members c) s"

definition keep_class :: "bool \<Rightarrow> string \<Rightarrow> string \<Rightarrow> string" where
  "keep_class ic members s = filter (in_class ic members) s"

fun seqs :: "rx list \<Rightarrow> rx" where
  "seqs [] = Lit []"
| "seqs [r] = r"
| "seqs (r # rs) = Seq r (seqs rs)"

fun alts :: "rx list \<Rightarrow> rx" where
  "alts [] = Lit []"
| "alts [r] = r"
| "alts (r # rs) = Alt r (alts rs)"

section \<open>The alias table\<close>

text \<open>
  \<^verbatim>\<open>FIELD_ALIASES\<close> is an object literal, and \<^verbatim>\<open>FIELD_ALIASES[name]\<close> is an ordinary
  property read: a name that is not an own property is looked up in
  \<^verbatim>\<open>Object.prototype\<close>. A resolved field is therefore a string or one of the built-in
  members of \<^verbatim>\<open>Object.prototype\<close>.
\<close>

datatype builtin = Fn string | ObjectPrototype

datatype field = Path string | Builtin builtin

definition Object_prototype :: "(string \<times> builtin) list" where
  "Object_prototype =
    [(''constructor'', Fn ''Object''),
     (''__defineGetter__'', Fn ''__defineGetter__''),
     (''__defineSetter__'', Fn ''__defineSetter__''),
     (''hasOwnProperty'', Fn ''hasOwnProperty''),
     (''__lookupGetter__'', Fn ''__lookupGetter__''),
     (''__lookupSetter__'', Fn ''__lookupSetter__''),
     (''isPrototypeOf'', Fn ''isPrototypeOf''),
     (''propertyIsEnumerable'', Fn ''propertyIsEnumerable''),
     (''toString'', Fn ''toString''),
     (''valueOf'', Fn ''valueOf''),
     (''__proto__'', ObjectPrototype),
     (''toLocaleString'', Fn ''toLocaleString'')]"

text \<open>The text of a built-in, as a template literal or a property key shows it.\<close>

fun builtin_text :: "builtin \<Rightarrow> string" where
  "builtin_text (Fn n) = ''function '' @ n @ ''() { [native code] }''"
| "builtin_text ObjectPrototype = ''[object Object]''"

fun field_text :: "field \<Rightarrow> string" where
  "field_text (Path s) = s"
| "field_text (Builtin b) = builtin_text b"

type_synonym aliases = "(string \<times> string) list"

definition FIELD_ALIASES :: aliases where
  "FIELD_ALIASES =
    [(''deviceid'', ''DeviceId''),
     (''organizationid'', ''OrganizationId''),
     (''organisationid'', ''OrganizationId''),
     (''userid'', ''UserId''),
     (''tagid'', ''TagId''),
     (''timestamp'', ''Timestamp''),
     (''date'', ''Date''),
     (''hour'', ''Hour''),
     (''month'', ''Month''),
     (''year'', ''Year''),
     (''index'', ''Index''),
     (''appname'', ''AppName''),
     (''loglevel'', ''LogLevel''),
     (''loglabel'', ''LogLabel''),
     (''logsummary'', ''LogSummary''),
     (''createdat'', ''CreatedAt''),
     (''devicename'', ''LogData.DeviceName''),
     (''devicetype'', ''LogData.DeviceType''),
     (''model'', ''LogData.Model''),
     (''loggedevent'', ''LogData.LoggedEvent''),
     (''messagetype'', ''LogData.MessageType''),
     (''state'', ''LogData.State''),
     (''statecode'', ''LogData.StateCode''),
     (''tag'', ''LogData.Tag''),
     (''description'', ''LogData.Description''),
     (''ward'', ''LogData.Ward''),
     (''epochcount'', ''LogData.EpochCount''),
     (''executionduration'', ''LogData.ExecutionDuration''),
     (''timezone'', ''LogData.Timezone''),
     (''requestid'', ''LogData.RequestId''),
     (''alertcode'', ''LogData.TagDetail.AlertCode''),
     (''alertlevel'', ''LogData.TagDetail.AlertLevel''),
     (''headertime'', ''LogData.TagDetail.HeaderTime''),
     (''key'', ''LogData.TagDetail.Key''),
     (''tagdetailmessage'', ''LogData.TagDetail.Message''),
     (''tagdetailrequestid'', ''LogData.TagDetail.RequestId'')]"

text \<open>\<^verbatim>\<open>FIELD_ALIASES[name]\<close>; \<open>None\<close> is \<^verbatim>\<open>undefined\<close>.\<close>

definition alias_get :: "aliases \<Rightarrow> string \<Rightarrow> field option" where
  "alias_get A name =
     (case map_of A name of
        Some p \<Rightarrow> Some (Path p)
      | None \<Rightarrow> map_option Builtin (map_of Object_prototype name))"

text \<open>\<^verbatim>\<open>FIELD_ALIASES[k.toLowerCase()] || k\<close>: \<^verbatim>\<open>undefined\<close> and the empty string are
  falsy, a built-in is truthy.\<close>

definition resolve :: "aliases \<Rightarrow> string \<Rightarrow> field" where
  "resolve A k =
     (case alias_get A (toLowerCase k) of
        None \<Rightarrow> Path k
      | Some (Path p) \<Rightarrow> if p = [] then Path k else Path p
      | Some (Builtin b) \<Rightarrow> Builtin b)"


section \<open>Filters\<close>

text \<open>A filter value is the raw string (an exact match) or the object
  \<^verbatim>\<open>{ $regex: r, $options: o }\<close>. A filter mapping is an object; its own properties are
  kept in the order in which they were first written (JavaScript lists keys that are array
  indices before the others; nothing here depends on the order).\<close>

datatype predicate = Exact string | Pattern string string

type_synonym filters = "(string \<times> predicate) list"

text \<open>\<^verbatim>\<open>obj[key] = v\<close>.\<close>

fun put :: "'k \<Rightarrow> 'v \<Rightarrow> ('k \<times> 'v) list \<Rightarrow> ('k \<times> 'v) list" where
  "put k v [] = [(k, v)]"
| "put k v ((k', v') # kvs) = (if k = k' then (k, v) # kvs else (k', v') # put k v kvs)"

definition id_fields :: "string list" where
  "id_fields = [''DeviceId'', ''OrganizationId'', ''UserId'', ''TagId'']"

text \<open>\<^verbatim>\<open>["DeviceId", "OrganizationId", "UserId", "TagId"].includes(key)\<close>.\<close>

fun is_id_field :: "field \<Rightarrow> bool" where
  "is_id_field (Path s) = (s \<in> set id_fields)"
| "is_id_field (Builtin b) = False"

text \<open>\<^verbatim>\<open>s.trim().replace(/['"]/g, "")\<close>.\<close>

definition unquote :: "string \<Rightarrow> string" where
  "unquote s = delete_class False [CHR 0x27, CHR 0x22] (trim s)"

text \<open>\<^verbatim>\<open>xs[i]\<close>; \<open>None\<close> is \<^verbatim>\<open>undefined\<close>.\<close>

fun nth_opt :: "'a list \<Rightarrow> nat \<Rightarrow> 'a option" where
  "nth_opt [] i = None"
| "nth_opt (x # xs) 0 = Some x"
| "nth_opt (x # xs) (Suc i) = nth_opt xs i"

type_synonym error = string

section \<open>\<^verbatim>\<open>isShowLogsQuery\<close> and \<^verbatim>\<open>extractFiltersOnly\<close>\<close>

text \<open>\<^verbatim>\<open>/^show\s+(all\s+)?logs\b/i\<close>\<close>

definition re_show_logs :: rx where
  "re_show_logs =
     seqs [Bol, Lit ''show'', Plus Space, Opt (Group 1 (seqs [Lit ''all'', Plus Space])),
           Lit ''logs'', WordB]"

definition isShowLogsQuery :: "string \<Rightarrow> bool" where
  "isShowLogsQuery q = rx_test True re_show_logs (trim q)"

text \<open>\<^verbatim>\<open>/(?:for|with|where|having)\s+(.*)/i\<close> and \<^verbatim>\<open>/and|,/\<close>\<close>

definition re_filter_intro :: rx where
  "re_filter_intro =
     seqs [alts [Lit ''for'', Lit ''with'', Lit ''where'', Lit ''having''], Plus Space,
           Group 1 (Star Dot)]"

definition re_and_comma :: rx where
  "re_and_comma = alts [Lit ''and'', Lit '','']"

text \<open>The body of the \<^verbatim>\<open>forEach\<close> of \<^verbatim>\<open>extractFiltersOnly\<close>, and in it
  \<^verbatim>\<open>const [k, v] = cond.split("=").map(...)\<close>. The test \<^verbatim>\<open>k && v\<close> holds when both are
  defined and not empty.\<close>

definition cond_pair :: "string \<Rightarrow> string option \<times> string option" where
  "cond_pair cond =
     (let kv = map unquote (split_chr (CHR ''='') cond)
      in (nth_opt kv 0, nth_opt kv 1))"

definition filtersOnly_cond :: "aliases \<Rightarrow> filters \<Rightarrow> string \<Rightarrow> filters" where
  "filtersOnly_cond A filters cond =
     (case cond_pair cond of
        (Some k, Some v) \<Rightarrow>
          if k \<noteq> [] \<and> v \<noteq> [] then
            (let key = resolve A k in
             if is_id_field key then put (field_text key) (Exact v) filters
             else put (field_text key) (Pattern (''^'' @ v @ ''$'') ''i'') filters)
          else filters
      | _ \<Rightarrow> filters)"

text \<open>Reading a member of \<^verbatim>\<open>undefined\<close> raises a TypeError.\<close>

definition cannot_read :: "string \<Rightarrow> string \<Rightarrow> error" where
  "cannot_read what p =
     ''Cannot read properties of '' @ what @ '' (reading '' @ [CHR 0x27] @ p @ [CHR 0x27] @ '')''"

definition extractFiltersOnly :: "aliases \<Rightarrow> string \<Rightarrow> error + filters" where
  "extractFiltersOnly A query =
     (case js_match True re_filter_intro query of
        None \<Rightarrow> Inr []
      | Some filterMatch \<Rightarrow>
          (case filterMatch 1 of
             None \<Rightarrow> Inl (cannot_read ''undefined'' ''split'')
           | Some clause \<Rightarrow>
               Inr (foldl (filtersOnly_cond A) [] (split_rx False re_and_comma clause))))"

section \<open>\<^verbatim>\<open>extractFieldsAndFilters\<close>\<close>

text \<open>\<^verbatim>\<open>/^(?:list|show|find)\s+(.+?)(?:\s+(?:where|with|having|for)\s+(.+))?$/i\<close>,
  \<^verbatim>\<open>/,|and/\<close>, the members of \<^verbatim>\<open>[^a-z0-9_.]\<close> and \<^verbatim>\<open>/\s+/\<close>\<close>

definition re_structured :: rx where
  "re_structured =
     seqs [Bol, alts [Lit ''list'', Lit ''show'', Lit ''find''], Plus Space,
           Group 1 (PlusLazy Dot),
           Opt (seqs [Plus Space, alts [Lit ''where'', Lit ''with'', Lit ''having'', Lit ''for''],
                      Plus Space, Group 2 (Plus Dot)]),
           Eol]"

definition re_comma_and :: rx where
  "re_comma_and = alts [Lit '','', Lit ''and'']"

definition field_chars :: string where
  "field_chars = ''abcdefghijklmnopqrstuvwxyz0123456789_.''"

text \<open>The result \<^verbatim>\<open>{ fields, filters }\<close>.\<close>

record parsed =
  the_fields :: "field list"
  the_filters :: filters

text \<open>The body of the first \<^verbatim>\<open>forEach\<close>: one piece of the field list.\<close>

definition fields_piece :: "aliases \<Rightarrow> field list \<Rightarrow> string \<Rightarrow> field list" where
  "fields_piece A fs f =
     (let cleaned = keep_class True field_chars (trim f)
      in if cleaned \<noteq> [] then fs @ [resolve A cleaned] else fs)"

text \<open>The body of the second \<^verbatim>\<open>forEach\<close>: one piece of the filter clause, and in it
  \<^verbatim>\<open>const [key, value] = ...\<close>.\<close>

definition token_pair :: "string \<Rightarrow> string option \<times> string option" where
  "token_pair token =
     (let kv = (if CHR ''='' \<in> set token then map unquote (split_chr (CHR ''='') token)
                else (case split_rx False (Plus Space) (trim token) of
                        [] \<Rightarrow> []
                      | part # parts \<Rightarrow> [part, join '' '' parts]))
      in (nth_opt kv 0, nth_opt kv 1))"

definition filter_token :: "aliases \<Rightarrow> filters \<Rightarrow> string \<Rightarrow> filters" where
  "filter_token A flt token =
     (case token_pair token of
        (Some key, Some val) \<Rightarrow>
          if key \<noteq> [] \<and> val \<noteq> [] then
            (let resolvedKey = resolve A key in
             if is_id_field resolvedKey then put (field_text resolvedKey) (Exact val) flt
             else put (field_text resolvedKey) (Pattern val ''i'') flt)
          else flt
      | _ \<Rightarrow> flt)"

definition extractFieldsAndFilters :: "aliases \<Rightarrow> string \<Rightarrow> error + parsed" where
  "extractFieldsAndFilters A query =
     (case js_match True re_structured query of
        None \<Rightarrow> Inr \<lparr>the_fields = [], the_filters = []\<rparr>
      | Some m \<Rightarrow>
          (case m 1 of
             None \<Rightarrow> Inl (cannot_read ''undefined'' ''split'')
           | Some rawFields \<Rightarrow>
               (let fs = foldl (fields_piece A) [] (split_rx False re_comma_and rawFields)
                in case m 2 of
                     None \<Rightarrow> Inr \<lparr>the_fields = fs, the_filters = []\<rparr>
                   | Some rawFilter \<Rightarrow>
                       if rawFilter \<noteq> [] then
                         Inr \<lparr>the_fields = fs,
                              the_filters = foldl (filter_token A) []
                                          (split_rx False re_and_comma rawFilter)\<rparr>
                       else Inr \<lparr>the_fields = fs, the_filters = []\<rparr>)))"


section \<open>Values and records\<close>

text \<open>
  The values that storage and the two services return. A number is given by the text
  that \<^verbatim>\<open>Number.prototype.toString\<close> prints for it. A record (a document) is an object;
  its own properties are an association list. \<open>Native\<close> is a built-in reached through a
  prototype. \<open>Other\<close> is an object of a class of the driver or the runtime (an ObjectId,
  a Date), given by the text that its \<^verbatim>\<open>toString\<close> prints.
\<close>

datatype jsval =
    Undefined
  | Null
  | Bool bool
  | Num string
  | Str string
  | Arr "jsval list"
  | Obj "(string \<times> jsval) list"
  | Native builtin
  | Other string

type_synonym doc = "(string \<times> jsval) list"

fun nullish :: "jsval \<Rightarrow> bool" where
  "nullish Undefined = True"
| "nullish Null = True"
| "nullish v = False"

fun truthy :: "jsval \<Rightarrow> bool" where
  "truthy Undefined = False"
| "truthy Null = False"
| "truthy (Bool b) = b"
| "truthy (Num n) = (n \<noteq> ''0'' \<and> n \<noteq> ''NaN'')"
| "truthy (Str s) = (s \<noteq> [])"
| "truthy (Arr xs) = True"
| "truthy (Obj ps) = True"
| "truthy (Native b) = True"
| "truthy (Other t) = True"

text \<open>\<^verbatim>\<open>obj[p]\<close> on an object whose prototype is \<^verbatim>\<open>Object.prototype\<close>.\<close>

definition obj_get :: "doc \<Rightarrow> string \<Rightarrow> jsval" where
  "obj_get ps p =
     (case map_of ps p of
        Some v \<Rightarrow> v
      | None \<Rightarrow> (case map_of Object_prototype p of Some b \<Rightarrow> Native b | None \<Rightarrow> Undefined))"

text \<open>\<^verbatim>\<open>v[p]\<close> on a value that is neither \<^verbatim>\<open>undefined\<close> nor \<^verbatim>\<open>null\<close>. The members of
  strings, numbers, booleans, arrays and built-ins (\<^verbatim>\<open>String.prototype\<close> and the like)
  are not modelled: \<open>prim\<close> stands for whatever the runtime answers there.\<close>

fun get_prop :: "(jsval \<Rightarrow> string \<Rightarrow> jsval) \<Rightarrow> jsval \<Rightarrow> string \<Rightarrow> jsval" where
  "get_prop prim (Obj ps) p = obj_get ps p"
| "get_prop prim v p = prim v p"

text \<open>\<^verbatim>\<open>v?.[p]\<close>\<close>

definition get_opt :: "(jsval \<Rightarrow> string \<Rightarrow> jsval) \<Rightarrow> jsval \<Rightarrow> string \<Rightarrow> jsval" where
  "get_opt prim v p = (if nullish v then Undefined else get_prop prim v p)"

text \<open>\<^verbatim>\<open>v.p\<close>: a TypeError on \<^verbatim>\<open>undefined\<close> and \<^verbatim>\<open>null\<close>.\<close>

definition get_member :: "(jsval \<Rightarrow> string \<Rightarrow> jsval) \<Rightarrow> jsval \<Rightarrow> string \<Rightarrow> error + jsval" where
  "get_member prim v p =
     (if v = Undefined then Inl (cannot_read ''undefined'' p)
      else if v = Null then Inl (cannot_read ''null'' p)
      else Inr (get_prop prim v p))"

text \<open>Decimal digits of an index.\<close>

function show_nat :: "nat \<Rightarrow> string" where
  "show_nat n = (if n < 10 then [char_of (48 + n)] else show_nat (n div 10) @ [char_of (48 + n mod 10)])"
  by pat_completeness auto
termination
  by (relation "measure id") auto

text \<open>ToString, as a template literal applies it. A stored object has no callable
  member of its own, so an own \<^verbatim>\<open>toString\<close> property leaves no way to a primitive:
  a TypeError. An array joins the texts of its elements with commas, \<^verbatim>\<open>undefined\<close> and
  \<^verbatim>\<open>null\<close> giving the empty text.\<close>

definition no_primitive :: error where
  "no_primitive = ''Cannot convert object to primitive value''"

fun to_string :: "jsval \<Rightarrow> error + string"
  and elems_text :: "jsval list \<Rightarrow> error + string list" where
  "to_string Undefined = Inr ''undefined''"
| "to_string Null = Inr ''null''"
| "to_string (Bool b) = Inr (if b then ''true'' else ''false'')"
| "to_string (Num n) = Inr n"
| "to_string (Str s) = Inr s"
| "to_string (Arr xs) = (case elems_text xs of Inl e \<Rightarrow> Inl e | Inr ts \<Rightarrow> Inr (join '','' ts))"
| "to_string (Obj ps) =
     (if ''toString'' \<in> fst ` set ps then Inl no_primitive else Inr ''[object Object]'')"
| "to_string (Native b) = Inr (builtin_text b)"
| "to_string (Other t) = Inr t"
| "elems_text [] = Inr []"
| "elems_text (x # xs) =
     (case (if nullish x then Inr [] else to_string x) of
        Inl e \<Rightarrow> Inl e
      | Inr t \<Rightarrow> (case elems_text xs of Inl e \<Rightarrow> Inl e | Inr ts \<Rightarrow> Inr (t # ts)))"

section \<open>\<^verbatim>\<open>formatContext\<close>\<close>

definition nl :: string where
  "nl = [CHR 0x0A]"

text \<open>Texts one after the other, up to the first that raises.\<close>

fun texts :: "(error + string) list \<Rightarrow> error + string" where
  "texts [] = Inr []"
| "texts (Inl e # ts) = Inl e"
| "texts (Inr t # ts) = (case texts ts of Inl e \<Rightarrow> Inl e | Inr r \<Rightarrow> Inr (t @ r))"

text \<open>The template of one record; \<open>i\<close> is its index in \<^verbatim>\<open>docs\<close>.\<close>

definition format_doc :: "(jsval \<Rightarrow> string \<Rightarrow> jsval) \<Rightarrow> nat \<Rightarrow> doc \<Rightarrow> error + string" where
  "format_doc prim i d =
     texts [Inr ''# Log '', Inr (show_nat (i + 1)), Inr nl,
            Inr ''DeviceId: '', to_string (obj_get d ''DeviceId''), Inr nl,
            Inr ''Summary: '', to_string (obj_get d ''LogSummary''), Inr nl,
            Inr ''State: '', to_string (get_opt prim (obj_get d ''LogData'') ''State''), Inr nl,
            Inr ''Model: '', to_string (get_opt prim (obj_get d ''LogData'') ''Model''), Inr nl,
            Inr ''Ward: '', to_string (get_opt prim (obj_get d ''LogData'') ''Ward''), Inr nl,
            Inr ''Timestamp: '', to_string (obj_get d ''Timestamp'')]"

text \<open>\<^verbatim>\<open>docs.map(f)\<close> for an \<open>f\<close> that takes the index and may raise.\<close>

fun map_index :: "(nat \<Rightarrow> 'a \<Rightarrow> error + 'b) \<Rightarrow> nat \<Rightarrow> 'a list \<Rightarrow> error + 'b list" where
  "map_index f i [] = Inr []"
| "map_index f i (x # xs) =
     (case f i x of
        Inl e \<Rightarrow> Inl e
      | Inr y \<Rightarrow> (case map_index f (Suc i) xs of Inl e \<Rightarrow> Inl e | Inr ys \<Rightarrow> Inr (y # ys)))"

definition formatContext :: "(jsval \<Rightarrow> string \<Rightarrow> jsval) \<Rightarrow> doc list \<Rightarrow> error + string" where
  "formatContext prim docs =
     (case map_index (format_doc prim) 0 docs of
        Inl e \<Rightarrow> Inl e
      | Inr blocks \<Rightarrow> Inr (join (nl @ nl) blocks))"

section \<open>Flattening structured results into rows\<close>

text \<open>\<^verbatim>\<open>val ?? ""\<close>\<close>

definition or_empty :: "jsval \<Rightarrow> jsval" where
  "or_empty v = (if nullish v then Str [] else v)"

text \<open>One cell (\<^verbatim>\<open>main\<close>, the callback of \<^verbatim>\<open>fields.map\<close>). A field that is not a string
  has no \<^verbatim>\<open>includes\<close> method.\<close>

definition no_includes :: error where
  "no_includes = ''f.includes is not a function''"

fun cell :: "(jsval \<Rightarrow> string \<Rightarrow> jsval) \<Rightarrow> doc \<Rightarrow> field \<Rightarrow> error + jsval" where
  "cell prim res (Builtin b) = Inl no_includes"
| "cell prim res (Path f) =
     (if CHR ''.'' \<in> set f then
        Inr (or_empty (foldl (\<lambda>val p. if truthy val then get_prop prim val p else val)
                         (Obj res) (split_chr (CHR ''.'') f)))
      else Inr (or_empty (obj_get res f)))"

definition flatten_row :: "(jsval \<Rightarrow> string \<Rightarrow> jsval) \<Rightarrow> field list \<Rightarrow> doc \<Rightarrow> error + jsval list" where
  "flatten_row prim fs res = map_index (\<lambda>i f. cell prim res f) 0 fs"

definition flatten_rows :: "(jsval \<Rightarrow> string \<Rightarrow> jsval) \<Rightarrow> field list \<Rightarrow> doc list \<Rightarrow> error + jsval list list" where
  "flatten_rows prim fs results = map_index (\<lambda>i res. flatten_row prim fs res) 0 results"


section \<open>Storage and the two services\<close>

text \<open>
  What a turn does to the outside, in order: the requests it sends and the lines it
  prints. The outside answers through a \<open>world\<close>: each request returns a value or raises
  (\<open>Inl\<close>, the message of the exception). \<open>db_find\<close> answers with the whole cursor; the cap
  of \<^verbatim>\<open>.limit(n)\<close> is \<^term>\<open>take n\<close> of it.
\<close>

record vector_search =
  vs_index :: string
  vs_path :: string
  vs_queryVector :: jsval
  vs_numCandidates :: nat
  vs_similarity :: string
  vs_limit :: nat
  vs_filter :: "filters option"

datatype printed =
    NoMatchingLogs
  | LogEntry nat doc
  | NoUniqueValues string
  | UniqueHeading string
  | UniqueValue string
  | SpecifyFields
  | Table "jsval list list" "field list"
  | Answer string

datatype effect =
    MongoFind filters "string list option" nat
  | MongoDistinct field
  | MongoAggregate vector_search
  | PostEmbeddings string
  | PostGenerate string
  | Print printed
  | PrintError error

record world =
  db_find :: "filters \<Rightarrow> string list option \<Rightarrow> error + doc list"
  db_distinct :: "field \<Rightarrow> error + jsval list"
  db_aggregate :: "vector_search \<Rightarrow> error + doc list"
  post_embeddings :: "string \<Rightarrow> error + jsval"
  post_generate :: "string \<Rightarrow> error + jsval"
  prim_get :: "jsval \<Rightarrow> string \<Rightarrow> jsval"

text \<open>A computation inside the \<^verbatim>\<open>try\<close> block: the effects so far, and the exception or
  the value.\<close>

type_synonym 'a comp = "effect list \<times> (error + 'a)"

definition and_then :: "'a comp \<Rightarrow> ('a \<Rightarrow> 'b comp) \<Rightarrow> 'b comp" where
  "and_then m f =
     (case m of
        (es, Inl e) \<Rightarrow> (es, Inl e)
      | (es, Inr x) \<Rightarrow> (case f x of (es', r) \<Rightarrow> (es @ es', r)))"

definition request :: "effect \<Rightarrow> error + 'a \<Rightarrow> 'a comp" where
  "request e answer = ([e], answer)"

definition pure :: "error + 'a \<Rightarrow> 'a comp" where
  "pure r = ([], r)"

definition console_log :: "printed \<Rightarrow> unit comp" where
  "console_log out = ([Print out], Inr ())"

text \<open>\<^verbatim>\<open>queryMongo\<close>: the projection has one key per field, the filters with a falsy
  value are left out, and the find is capped at 100.\<close>

fun truthy_pred :: "predicate \<Rightarrow> bool" where
  "truthy_pred (Exact v) = (v \<noteq> [])"
| "truthy_pred (Pattern r opts) = True"

definition queryMongo :: "world \<Rightarrow> field list \<Rightarrow> filters \<Rightarrow> doc list comp" where
  "queryMongo W fs flt =
     (let projection = foldl (\<lambda>proj f. put (field_text f) (1::nat) proj) [] fs;
          cleanFilters = foldl (\<lambda>cf (k, v). if truthy_pred v then put k v cf else cf) [] flt
      in and_then (request (MongoFind cleanFilters (Some (map fst projection)) 100)
                 (db_find W cleanFilters (Some (map fst projection))))
           (\<lambda>cursor. pure (Inr (take 100 cursor))))"

text \<open>\<^verbatim>\<open>generateEmbedding\<close>: the \<^verbatim>\<open>embedding\<close> member of the response body, whatever
  it is.\<close>

definition generateEmbedding :: "world \<Rightarrow> string \<Rightarrow> jsval comp" where
  "generateEmbedding W text =
     and_then (request (PostEmbeddings text) (post_embeddings W text))
       (\<lambda>data. pure (get_member (prim_get W) data ''embedding''))"

text \<open>\<^verbatim>\<open>searchSimilarLogs(embedding, filters = {})\<close>; \<open>None\<close> is an argument left out.\<close>

definition searchSimilarLogs :: "world \<Rightarrow> jsval \<Rightarrow> filters option \<Rightarrow> doc list comp" where
  "searchSimilarLogs W embedding arg =
     (let flt = (case arg of None \<Rightarrow> [] | Some f \<Rightarrow> f);
          stage = \<lparr>vs_index = ''vector_index'', vs_path = ''embedding'',
                   vs_queryVector = embedding, vs_numCandidates = 100,
                   vs_similarity = ''cosine'', vs_limit = 15, vs_filter = None\<rparr>;
          stage' = (if length flt > 0 then stage\<lparr>vs_filter := Some flt\<rparr> else stage)
      in request (MongoAggregate stage') (db_aggregate W stage'))"

definition prompt :: "string \<Rightarrow> string \<Rightarrow> string" where
  "prompt context question =
     ''You are an assistant helping debug medical device logs. Use the context to answer the user''
     @ [CHR 0x27] @ ''s question.'' @ nl @ nl @ ''Context:'' @ nl @ context @ nl @ nl
     @ ''Question: '' @ question @ nl @ nl @ ''Answer:''"

definition askMistral :: "world \<Rightarrow> string \<Rightarrow> string \<Rightarrow> jsval comp" where
  "askMistral W context question =
     and_then (request (PostGenerate (prompt context question)) (post_generate W (prompt context question)))
       (\<lambda>data. pure (get_member (prim_get W) data ''response''))"

section \<open>One turn of \<^verbatim>\<open>main\<close>\<close>

text \<open>\<^verbatim>\<open>/^list\s+unique\s+(.+)$/i\<close> and \<^verbatim>\<open>/^(list|show|find)\b/i\<close>\<close>

definition re_list_unique :: rx where
  "re_list_unique =
     seqs [Bol, Lit ''list'', Plus Space, Lit ''unique'', Plus Space, Group 1 (Plus Dot), Eol]"

definition re_verb :: rx where
  "re_verb = seqs [Bol, Group 1 (alts [Lit ''list'', Lit ''show'', Lit ''find'']), WordB]"

text \<open>The record without its \<^verbatim>\<open>embedding\<close>:
  \<^verbatim>\<open>const { embedding, ...docWithoutEmbedding } = doc\<close>.\<close>

definition without_embedding :: "doc \<Rightarrow> doc" where
  "without_embedding d = filter (\<lambda>(k, v). k \<noteq> ''embedding'') d"

fun print_entries :: "nat \<Rightarrow> doc list \<Rightarrow> effect list" where
  "print_entries i [] = []"
| "print_entries i (d # ds) = Print (LogEntry (i + 1) (without_embedding d)) # print_entries (Suc i) ds"

definition show_logs_turn :: "world \<Rightarrow> aliases \<Rightarrow> string \<Rightarrow> unit comp" where
  "show_logs_turn W A question =
     and_then (pure (extractFiltersOnly A question)) (\<lambda>flt.
     and_then (request (MongoFind flt None 50) (db_find W flt None)) (\<lambda>cursor.
       (let docs = take 50 cursor
        in if length docs = 0 then console_log NoMatchingLogs
           else (print_entries 0 docs, Inr ()))))"

text \<open>The field of a \<^verbatim>\<open>list unique\<close> question, from the first capture.\<close>

definition unique_field :: "aliases \<Rightarrow> string \<Rightarrow> field" where
  "unique_field A captured = resolve A (keep_class True field_chars (trim captured))"

fun print_values :: "jsval list \<Rightarrow> unit comp" where
  "print_values [] = ([], Inr ())"
| "print_values (v # vs) =
     and_then (pure (to_string v)) (\<lambda>t. and_then (console_log (UniqueValue t)) (\<lambda>u. print_values vs))"

definition list_unique_turn :: "world \<Rightarrow> aliases \<Rightarrow> string \<Rightarrow> unit comp" where
  "list_unique_turn W A captured =
     (let field = unique_field A captured
      in and_then (request (MongoDistinct field) (db_distinct W field)) (\<lambda>uniqueValues.
           if length uniqueValues = 0 then console_log (NoUniqueValues (field_text field))
           else and_then (console_log (UniqueHeading (field_text field))) (\<lambda>u. print_values uniqueValues)))"

definition structured_turn :: "world \<Rightarrow> aliases \<Rightarrow> string \<Rightarrow> unit comp" where
  "structured_turn W A question =
     and_then (pure (extractFieldsAndFilters A question)) (\<lambda>r.
       if length (the_fields r) = 0 then console_log SpecifyFields
       else and_then (queryMongo W (the_fields r) (the_filters r)) (\<lambda>results.
              if length results = 0 then console_log NoMatchingLogs
              else and_then (pure (flatten_rows (prim_get W) (the_fields r) results)) (\<lambda>rows.
                     console_log (Table rows (the_fields r)))))"

definition fallback_turn :: "world \<Rightarrow> string \<Rightarrow> unit comp" where
  "fallback_turn W question =
     and_then (generateEmbedding W question) (\<lambda>embedding.
     and_then (searchSimilarLogs W embedding None) (\<lambda>docs.
     and_then (pure (formatContext (prim_get W) docs)) (\<lambda>context.
     and_then (askMistral W context question) (\<lambda>answer.
     and_then (pure (to_string answer)) (\<lambda>t. console_log (Answer t))))))"

datatype intent = ShowAllLogs | ListUniqueField | StructuredList | SemanticFallback

text \<open>The chain of tests inside the \<^verbatim>\<open>try\<close> block, in its order.\<close>

definition classify :: "string \<Rightarrow> intent" where
  "classify question =
     (if isShowLogsQuery question then ShowAllLogs
      else if js_match True re_list_unique question \<noteq> None then ListUniqueField
      else if rx_test True re_verb (trim question) then StructuredList
      else SemanticFallback)"

definition try_block :: "world \<Rightarrow> aliases \<Rightarrow> string \<Rightarrow> unit comp" where
  "try_block W A question =
     (if isShowLogsQuery question then show_logs_turn W A question
      else (case js_match True re_list_unique question of
          Some uniqueMatch \<Rightarrow>
            (case uniqueMatch 1 of
               None \<Rightarrow> pure (Inl (cannot_read ''undefined'' ''trim''))
             | Some captured \<Rightarrow> list_unique_turn W A captured)
        | None \<Rightarrow>
            if rx_test True re_verb (trim question) then structured_turn W A question
            else fallback_turn W question))"

text \<open>\<^verbatim>\<open>catch (err) { console.error(..., err.message) }\<close>\<close>

definition catch :: "unit comp \<Rightarrow> effect list" where
  "catch m = (case m of (es, Inl e) \<Rightarrow> es @ [PrintError e] | (es, Inr u) \<Rightarrow> es)"

text \<open>One pass through the loop of \<^verbatim>\<open>main\<close>: \<open>None\<close> leaves the loop. The alias table is
  the one object of the module that outlives a turn; the turn hands it on.\<close>

definition turn :: "world \<Rightarrow> aliases \<Rightarrow> string \<Rightarrow> (effect list \<times> aliases) option" where
  "turn W A question =
     (let q = toLowerCase (trim question)
      in if q = ''exit'' \<or> q = ''q'' then None
         else Some (catch (try_block W A question), A))"

text \<open>The loop over the lines read, with the world of each turn.\<close>

fun main :: "aliases \<Rightarrow> (world \<times> string) list \<Rightarrow> effect list \<times> aliases" where
  "main A [] = ([], A)"
| "main A ((W, question) # rest) =
     (case turn W A question of
        None \<Rightarrow> ([], A)
      | Some (es, A') \<Rightarrow> (case main A' rest of (es', A'') \<Rightarrow> (es @ es', A'')))"


section \<open>The decision order in the words of the specification\<close>

text \<open>
  \<open>same_word w u\<close>: the text \<open>u\<close> spells the word \<open>w\<close>, letter case aside. \<open>blanks u\<close>:
  \<open>u\<close> is a non-empty run of white space. \<open>token_end rest\<close>: a token ends where \<open>rest\<close>
  begins.
\<close>

definition same_word :: "string \<Rightarrow> string \<Rightarrow> bool" where
  "same_word w u = list_all2 (chr_eq True) w u"

definition blanks :: "string \<Rightarrow> bool" where
  "blanks u = (u \<noteq> [] \<and> (\<forall>c \<in> set u. is_space c))"

definition token_end :: "string \<Rightarrow> bool" where
  "token_end rest = (case rest of [] \<Rightarrow> True | c # cs \<Rightarrow> \<not> is_word c)"

text \<open>The input begins \<^verbatim>\<open>show [all] logs\<close>; anything may follow the token \<^verbatim>\<open>logs\<close>.\<close>

definition matches_show_logs :: "string \<Rightarrow> bool" where
  "matches_show_logs q =
     (\<exists>a b c d rest. q = a @ b @ c @ d @ rest \<and> same_word ''show'' a \<and> blanks b \<and>
        (c = [] \<or> (\<exists>c1 c2. c = c1 @ c2 \<and> same_word ''all'' c1 \<and> blanks c2)) \<and>
        same_word ''logs'' d \<and> token_end rest)"

text \<open>The input is \<^verbatim>\<open>list unique <field>\<close>, the field text being the non-empty rest of
  the line.\<close>

definition matches_list_unique :: "string \<Rightarrow> bool" where
  "matches_list_unique q =
     (\<exists>a b c d x. q = a @ b @ c @ d @ x \<and> same_word ''list'' a \<and> blanks b \<and>
        same_word ''unique'' c \<and> blanks d \<and> x \<noteq> [] \<and> (\<forall>ch \<in> set x. is_dot ch))"

text \<open>The input begins with the token \<^verbatim>\<open>list\<close>, \<^verbatim>\<open>show\<close> or \<^verbatim>\<open>find\<close>.\<close>

definition leading_verb :: "string \<Rightarrow> bool" where
  "leading_verb q =
     (\<exists>v rest. q = v @ rest \<and>
        (same_word ''list'' v \<or> same_word ''show'' v \<or> same_word ''find'' v) \<and> token_end rest)"

definition decision :: "string \<Rightarrow> intent" where
  "decision q =
     (if matches_show_logs q then ShowAllLogs
      else if matches_list_unique q then ListUniqueField
      else if leading_verb q then StructuredList
      else SemanticFallback)"

section \<open>Two example worlds\<close>

text \<open>Storage holds two records, the first with an embedding; the similarity search
  finds nothing; both services answer.\<close>

definition example_world :: world where
  "example_world =
     \<lparr>db_find = (\<lambda>flt proj. Inr [[(''DeviceId'', Str ''ABC123''),
                                   (''LogData'', Obj [(''Ward'', Str ''ICU'')]),
                                   (''embedding'', Arr [Num ''0.25'', Num ''-1''])],
                                  [(''DeviceId'', Str ''XYZ789'')]]),
      db_distinct = (\<lambda>f. Inr [Str ''ICU'']),
      db_aggregate = (\<lambda>stage. Inr []),
      post_embeddings = (\<lambda>t. Inr (Obj [(''embedding'', Arr [Num ''0.25'', Num ''-1''])])),
      post_generate = (\<lambda>p. Inr (Obj [(''response'', Str ''No logs.'')])),
      prim_get = (\<lambda>v p. Undefined)\<rparr>"

text \<open>The same, but the embedding service answers with a body that has no
  \<^verbatim>\<open>embedding\<close> member.\<close>

definition world_without_vector :: world where
  "world_without_vector =
     example_world\<lparr>post_embeddings := (\<lambda>t. Inr (Obj [(''error'', Str ''model not found'')]))\<rparr>"


section \<open>Requests of a turn\<close>

text \<open>A request to storage that is not a filtered similarity search.\<close>

definition unfiltered :: "effect \<Rightarrow> bool" where
  "unfiltered e = (\<forall>stage. e = MongoAggregate stage \<longrightarrow> vs_filter stage = None)"

section \<open>The filter value of a key and a raw value\<close>



section \<open>The end of a fallback turn\<close>

text \<open>What a fallback turn does once the generator has been called with the prompt
  \<open>pr\<close>: it prints the answer, or the error of the call.\<close>

definition answer_effects :: "world \<Rightarrow> string \<Rightarrow> effect list" where
  "answer_effects W pr =
     (case post_generate W pr of
        Inl e \<Rightarrow> [PrintError e]
      | Inr body \<Rightarrow>
          (case get_member (prim_get W) body ''response'' of
             Inl e \<Rightarrow> [PrintError e]
           | Inr answer \<Rightarrow>
               (case to_string answer of Inl e \<Rightarrow> [PrintError e] | Inr t \<Rightarrow> [Print (Answer t)])))"

section \<open>Field names and log records in the words of the specification\<close>

text \<open>The characters that a field name keeps: \<^verbatim>\<open>[a-zA-Z0-9_.]\<close>.\<close>

definition is_field_chr :: "char \<Rightarrow> bool" where
  "is_field_chr c =
     (is_ascii_lower c \<or> is_ascii_upper c \<or> is_digit c \<or> c = CHR ''_'' \<or> c = CHR ''.'')"

text \<open>A log record has scalar top-level fields and one nested object of scalars, which
  may be absent.\<close>

definition scalar :: "jsval \<Rightarrow> bool" where
  "scalar v = (case v of Arr xs \<Rightarrow> False | Obj ps \<Rightarrow> False | _ \<Rightarrow> True)"

definition log_record :: "doc \<Rightarrow> bool" where
  "log_record d =
     (scalar (obj_get d ''DeviceId'') \<and> scalar (obj_get d ''LogSummary'') \<and>
      scalar (obj_get d ''Timestamp'') \<and>
      (case obj_get d ''LogData'' of
         Undefined \<Rightarrow> True
       | Null \<Rightarrow> True
       | Obj ld \<Rightarrow> scalar (obj_get ld ''State'') \<and> scalar (obj_get ld ''Model'') \<and>
                   scalar (obj_get ld ''Ward'')
       | _ \<Rightarrow> False))"

section \<open>What a filter value matches\<close>







section \<open>The filter normalizer in the words of the specification\<close>




section \<open>Objects in a store\<close>

text \<open>
  The objects that outlive a call or are written by one, in a store of cells addressed by
  their index. A plain object has its own properties, in the order in which they were
  first written, and a prototype; a property holds a value or is the accessor
  \<^verbatim>\<open>__proto__\<close> of \<^verbatim>\<open>Object.prototype\<close>. Of an array only the elements are kept.
  Strings, numbers and built-in functions are
  values; a regular-expression literal is evaluated anew wherever it stands, and none of
  those given to \<^verbatim>\<open>test\<close> or \<^verbatim>\<open>match\<close> has the flag \<^verbatim>\<open>g\<close>, so it is kept as a value too.
\<close>

datatype hval = HUndefined | HNull | HStr string | HNum nat | HFn string | HRef nat

datatype property = Data hval | ProtoAccessor

datatype store_cell = Object "(string \<times> property) list" "nat option" | Array "hval list"

type_synonym store = "store_cell list"

text \<open>When the module has been loaded the store holds \<^verbatim>\<open>Object.prototype\<close>, at address
  0, and the object that \<^verbatim>\<open>const FIELD_ALIASES\<close> is bound to, at address 1.\<close>

fun builtin_property :: "builtin \<Rightarrow> property" where
  "builtin_property (Fn n) = Data (HFn n)"
| "builtin_property ObjectPrototype = ProtoAccessor"

definition initial_store :: store where
  "initial_store =
     [Object (map (\<lambda>(name, b). (name, builtin_property b)) Object_prototype) None,
      Object (map (\<lambda>(name, path). (name, Data (HStr path))) FIELD_ALIASES) (Some 0)]"

text \<open>The property that a name reaches from an object, along the prototype chain. A chain
  has no cycle, so it is no longer than the store: \<open>n\<close> bounds the steps.\<close>

fun find_prop :: "nat \<Rightarrow> store \<Rightarrow> nat \<Rightarrow> string \<Rightarrow> property option" where
  "find_prop 0 s a key = None"
| "find_prop (Suc n) s a key =
     (if a < length s then
        (case s ! a of
           Object ps proto \<Rightarrow>
             (case map_of ps key of
                Some p \<Rightarrow> Some p
              | None \<Rightarrow> (case proto of None \<Rightarrow> None | Some b \<Rightarrow> find_prop n s b key))
         | Array xs \<Rightarrow> None)
      else None)"

definition proto_of :: "store \<Rightarrow> nat \<Rightarrow> hval" where
  "proto_of s a =
     (if a < length s then (case s ! a of Object ps (Some b) \<Rightarrow> HRef b | _ \<Rightarrow> HNull) else HNull)"

text \<open>\<^verbatim>\<open>obj[key]\<close>, read.\<close>

definition get_h :: "store \<Rightarrow> nat \<Rightarrow> string \<Rightarrow> hval" where
  "get_h s a key =
     (case find_prop (length s) s a key of
        None \<Rightarrow> HUndefined
      | Some (Data v) \<Rightarrow> v
      | Some ProtoAccessor \<Rightarrow> proto_of s a)"

text \<open>A computation on the store: an exception or a value, and the store it leaves.\<close>

type_synonym 'a prog = "store \<Rightarrow> (error + 'a) \<times> store"

definition then_h :: "'a prog \<Rightarrow> ('a \<Rightarrow> 'b prog) \<Rightarrow> 'b prog" where
  "then_h m f s = (case m s of (Inl e, s') \<Rightarrow> (Inl e, s') | (Inr x, s') \<Rightarrow> f x s')"

definition return_h :: "'a \<Rightarrow> 'a prog" where
  "return_h x s = (Inr x, s)"

definition raise_h :: "error \<Rightarrow> 'a prog" where
  "raise_h e s = (Inl e, s)"

text \<open>\<^verbatim>\<open>xs.forEach(f)\<close>\<close>

fun for_each :: "('a \<Rightarrow> unit prog) \<Rightarrow> 'a list \<Rightarrow> unit prog" where
  "for_each f [] s = (Inr (), s)"
| "for_each f (x # xs) s =
     (case f x s of (Inl e, s') \<Rightarrow> (Inl e, s') | (Inr u, s') \<Rightarrow> for_each f xs s')"

text \<open>An object or array literal: a new cell.\<close>

definition alloc :: "store_cell \<Rightarrow> nat prog" where
  "alloc c s = (Inr (length s), s @ [c])"

definition update_cell :: "nat \<Rightarrow> (store_cell \<Rightarrow> store_cell) \<Rightarrow> store \<Rightarrow> store" where
  "update_cell a f s = (if a < length s then s[a := f (s ! a)] else s)"

text \<open>The setter of \<^verbatim>\<open>__proto__\<close>: an object or \<^verbatim>\<open>null\<close> becomes the prototype of the
  receiver, unless that closes a cycle; any other value is ignored.\<close>

fun on_chain :: "nat \<Rightarrow> store \<Rightarrow> nat \<Rightarrow> nat \<Rightarrow> bool" where
  "on_chain 0 s a b = False"
| "on_chain (Suc n) s a b =
     (a = b \<or>
      (a < length s \<and> (case s ! a of Object ps (Some c) \<Rightarrow> on_chain n s c b | _ \<Rightarrow> False)))"

fun with_proto :: "nat option \<Rightarrow> store_cell \<Rightarrow> store_cell" where
  "with_proto b (Object ps proto) = Object ps b"
| "with_proto b (Array xs) = Array xs"

definition set_proto :: "nat \<Rightarrow> hval \<Rightarrow> unit prog" where
  "set_proto a v s =
     (case v of
        HRef b \<Rightarrow>
          if on_chain (length s) s b a then (Inl ''Cyclic __proto__ value'', s)
          else (Inr (), update_cell a (with_proto (Some b)) s)
      | HNull \<Rightarrow> (Inr (), update_cell a (with_proto None) s)
      | _ \<Rightarrow> (Inr (), s))"

text \<open>\<^verbatim>\<open>obj[key] = v\<close>: the setter when the name reaches the accessor, otherwise an own
  property of the object, new or overwritten.\<close>

fun with_property :: "string \<Rightarrow> hval \<Rightarrow> store_cell \<Rightarrow> store_cell" where
  "with_property key v (Object ps proto) = Object (put key (Data v) ps) proto"
| "with_property key v (Array xs) = Array xs"

definition set_h :: "nat \<Rightarrow> string \<Rightarrow> hval \<Rightarrow> unit prog" where
  "set_h a key v s =
     (case find_prop (length s) s a key of
        Some ProtoAccessor \<Rightarrow> set_proto a v s
      | _ \<Rightarrow> (Inr (), update_cell a (with_property key v) s))"

text \<open>\<^verbatim>\<open>xs.push(v)\<close>, and the elements of an array.\<close>

definition push_h :: "nat \<Rightarrow> hval \<Rightarrow> unit prog" where
  "push_h a v s =
     (if a < length s then
        (case s ! a of
           Array xs \<Rightarrow> (Inr (), s[a := Array (xs @ [v])])
         | Object ps proto \<Rightarrow> (Inl ''fields.push is not a function'', s))
      else (Inl ''fields.push is not a function'', s))"

definition elements :: "store \<Rightarrow> nat \<Rightarrow> hval list" where
  "elements s a = (if a < length s then (case s ! a of Array xs \<Rightarrow> xs | _ \<Rightarrow> []) else [])"

text \<open>The own properties of an object, and \<^verbatim>\<open>Object.keys(obj)\<close>.\<close>

definition own :: "store \<Rightarrow> nat \<Rightarrow> (string \<times> property) list" where
  "own s a = (if a < length s then (case s ! a of Object ps proto \<Rightarrow> ps | _ \<Rightarrow> []) else [])"

definition own_keys :: "store \<Rightarrow> nat \<Rightarrow> string list" where
  "own_keys s a = map fst (own s a)"

fun truthy_h :: "hval \<Rightarrow> bool" where
  "truthy_h HUndefined = False"
| "truthy_h HNull = False"
| "truthy_h (HStr x) = (x \<noteq> [])"
| "truthy_h (HNum n) = (n \<noteq> 0)"
| "truthy_h (HFn n) = True"
| "truthy_h (HRef a) = True"

text \<open>The text of a value used as a property key or in a template literal. An object
  gives what its \<^verbatim>\<open>toString\<close> returns, \<^verbatim>\<open>[object Object]\<close> for the built-in one; no
  other function is stored by the program, and a \<^verbatim>\<open>toString\<close> that is not a function
  leaves no way to a primitive.\<close>

definition key_of :: "store \<Rightarrow> hval \<Rightarrow> error + string" where
  "key_of s v =
     (case v of
        HUndefined \<Rightarrow> Inr ''undefined''
      | HNull \<Rightarrow> Inr ''null''
      | HStr x \<Rightarrow> Inr x
      | HNum n \<Rightarrow> Inr (show_nat n)
      | HFn n \<Rightarrow> Inr (builtin_text (Fn n))
      | HRef a \<Rightarrow> if get_h s a ''toString'' = HFn ''toString'' then Inr ''[object Object]''
                  else Inl no_primitive)"

text \<open>\<^verbatim>\<open>obj[k] = v\<close> for a key \<open>k\<close> that is a value.\<close>

definition assign :: "nat \<Rightarrow> hval \<Rightarrow> hval \<Rightarrow> unit prog" where
  "assign a k v s = (case key_of s k of Inl e \<Rightarrow> (Inl e, s) | Inr name \<Rightarrow> set_h a name v s)"

section \<open>The extractors on the store\<close>

text \<open>\<^verbatim>\<open>FIELD_ALIASES[k.toLowerCase()] || k\<close>\<close>

definition resolve_h :: "store \<Rightarrow> string \<Rightarrow> hval" where
  "resolve_h s k = (let v = get_h s 1 (toLowerCase k) in if truthy_h v then v else HStr k)"

text \<open>\<^verbatim>\<open>["DeviceId", "OrganizationId", "UserId", "TagId"].includes(key)\<close>\<close>

fun includes_id :: "hval \<Rightarrow> bool" where
  "includes_id (HStr x) = (x \<in> set id_fields)"
| "includes_id v = False"

text \<open>\<^verbatim>\<open>{ $regex: r, $options: "i" }\<close>\<close>

definition pattern_object :: "string \<Rightarrow> store_cell" where
  "pattern_object r = Object [(''$regex'', Data (HStr r)), (''$options'', Data (HStr ''i''))] (Some 0)"

definition filtersOnly_cond_h :: "nat \<Rightarrow> string \<Rightarrow> unit prog" where
  "filtersOnly_cond_h filters cond s =
     (case cond_pair cond of
        (Some k, Some v) \<Rightarrow>
          if k \<noteq> [] \<and> v \<noteq> [] then
            (let key = resolve_h s k in
             if includes_id key then assign filters key (HStr v) s
             else then_h (alloc (pattern_object (''^'' @ v @ ''$'')))
                    (\<lambda>pattern. assign filters key (HRef pattern)) s)
          else (Inr (), s)
      | _ \<Rightarrow> (Inr (), s))"

definition extractFiltersOnly_h :: "string \<Rightarrow> nat prog" where
  "extractFiltersOnly_h query =
     then_h (alloc (Object [] (Some 0))) (\<lambda>filters.
       case js_match True re_filter_intro query of
         None \<Rightarrow> return_h filters
       | Some filterMatch \<Rightarrow>
           (case filterMatch 1 of
              None \<Rightarrow> raise_h (cannot_read ''undefined'' ''split'')
            | Some clause \<Rightarrow>
                then_h (for_each (filtersOnly_cond_h filters) (split_rx False re_and_comma clause))
                  (\<lambda>u. return_h filters)))"

definition fields_piece_h :: "nat \<Rightarrow> string \<Rightarrow> unit prog" where
  "fields_piece_h arr f s =
     (let cleaned = keep_class True field_chars (trim f)
      in if cleaned \<noteq> [] then push_h arr (resolve_h s cleaned) s else (Inr (), s))"

definition filter_token_h :: "nat \<Rightarrow> string \<Rightarrow> unit prog" where
  "filter_token_h filters token s =
     (case token_pair token of
        (Some key, Some val) \<Rightarrow>
          if key \<noteq> [] \<and> val \<noteq> [] then
            (let resolvedKey = resolve_h s key in
             if includes_id resolvedKey then assign filters resolvedKey (HStr val) s
             else then_h (alloc (pattern_object val))
                    (\<lambda>pattern. assign filters resolvedKey (HRef pattern)) s)
          else (Inr (), s)
      | _ \<Rightarrow> (Inr (), s))"

text \<open>The result is the pair of the two objects.\<close>

definition extractFieldsAndFilters_h :: "string \<Rightarrow> (nat \<times> nat) prog" where
  "extractFieldsAndFilters_h query =
     then_h (alloc (Array [])) (\<lambda>arr.
     then_h (alloc (Object [] (Some 0))) (\<lambda>filters.
       case js_match True re_structured query of
         None \<Rightarrow> return_h (arr, filters)
       | Some m \<Rightarrow>
           (case m 1 of
              None \<Rightarrow> raise_h (cannot_read ''undefined'' ''split'')
            | Some rawFields \<Rightarrow>
                then_h (for_each (fields_piece_h arr) (split_rx False re_comma_and rawFields))
                  (\<lambda>u. case m 2 of
                     None \<Rightarrow> return_h (arr, filters)
                   | Some rawFilter \<Rightarrow>
                       if rawFilter \<noteq> [] then
                         then_h (for_each (filter_token_h filters)
                                   (split_rx False re_and_comma rawFilter))
                           (\<lambda>u. return_h (arr, filters))
                       else return_h (arr, filters)))))"

section \<open>What storage is sent\<close>

text \<open>The driver sends the own properties of a filter object: a string as it is, a
  pattern object by its two texts. The program stores nothing else in a filter object;
  any other value is read as the empty string.\<close>

fun text_of :: "property option \<Rightarrow> string" where
  "text_of (Some (Data (HStr x))) = x"
| "text_of p = []"

definition read_value :: "store \<Rightarrow> property \<Rightarrow> predicate" where
  "read_value s p =
     (case p of
        Data (HRef a) \<Rightarrow> Pattern (text_of (map_of (own s a) ''$regex''))
                                 (text_of (map_of (own s a) ''$options''))
      | Data (HStr x) \<Rightarrow> Exact x
      | _ \<Rightarrow> Exact [])"

definition read_filters :: "store \<Rightarrow> nat \<Rightarrow> filters" where
  "read_filters s a = map (\<lambda>(k, p). (k, read_value s p)) (own s a)"

text \<open>A field as the driver and the table see it. The alias table holds strings only,
  and the one object that a lookup in it reaches is \<^verbatim>\<open>Object.prototype\<close>.\<close>

fun field_of :: "hval \<Rightarrow> field" where
  "field_of (HStr p) = Path p"
| "field_of (HFn n) = Builtin (Fn n)"
| "field_of (HRef a) = Builtin ObjectPrototype"
| "field_of (HNum n) = Path (show_nat n)"
| "field_of HUndefined = Path ''undefined''"
| "field_of HNull = Path ''null''"

definition read_fields :: "store \<Rightarrow> nat \<Rightarrow> field list" where
  "read_fields s a = map field_of (elements s a)"

section \<open>A turn on the store\<close>

text \<open>\<^verbatim>\<open>queryMongo\<close>: the projection and the cleaned filters are two new objects, filled
  key by key.\<close>

definition clean_entry :: "nat \<Rightarrow> nat \<Rightarrow> string \<Rightarrow> unit prog" where
  "clean_entry filters cleanFilters k s =
     (if truthy_h (get_h s filters k) then set_h cleanFilters k (get_h s filters k) s
      else (Inr (), s))"

definition queryMongo_h :: "world \<Rightarrow> nat \<Rightarrow> nat \<Rightarrow> store \<Rightarrow> doc list comp \<times> store" where
  "queryMongo_h W arr filters s =
     (case then_h (alloc (Object [] (Some 0))) (\<lambda>projection.
           then_h (for_each (\<lambda>f. assign projection f (HNum 1)) (elements s arr)) (\<lambda>u.
           then_h (alloc (Object [] (Some 0))) (\<lambda>cleanFilters.
           then_h (\<lambda>s'. for_each (clean_entry filters cleanFilters) (own_keys s' filters) s') (\<lambda>u.
           return_h (projection, cleanFilters))))) s of
        (Inl e, s') \<Rightarrow> (([], Inl e), s')
      | (Inr (projection, cleanFilters), s') \<Rightarrow>
          (and_then (request (MongoFind (read_filters s' cleanFilters)
                                (Some (own_keys s' projection)) 100)
                       (db_find W (read_filters s' cleanFilters) (Some (own_keys s' projection))))
             (\<lambda>cursor. pure (Inr (take 100 cursor))), s'))"

definition show_logs_turn_h :: "world \<Rightarrow> string \<Rightarrow> store \<Rightarrow> unit comp \<times> store" where
  "show_logs_turn_h W question s =
     (case extractFiltersOnly_h question s of
        (Inl e, s') \<Rightarrow> (([], Inl e), s')
      | (Inr filters, s') \<Rightarrow>
          (and_then (request (MongoFind (read_filters s' filters) None 50)
                       (db_find W (read_filters s' filters) None)) (\<lambda>cursor.
             (let docs = take 50 cursor
              in if length docs = 0 then console_log NoMatchingLogs
                 else (print_entries 0 docs, Inr ()))), s'))"

definition list_unique_turn_h :: "world \<Rightarrow> string \<Rightarrow> store \<Rightarrow> unit comp \<times> store" where
  "list_unique_turn_h W captured s =
     (let field = resolve_h s (keep_class True field_chars (trim captured))
      in (and_then (request (MongoDistinct (field_of field)) (db_distinct W (field_of field)))
            (\<lambda>uniqueValues.
               and_then (pure (key_of s field)) (\<lambda>name.
                 if length uniqueValues = 0 then console_log (NoUniqueValues name)
                 else and_then (console_log (UniqueHeading name)) (\<lambda>u. print_values uniqueValues))),
          s))"

definition structured_turn_h :: "world \<Rightarrow> string \<Rightarrow> store \<Rightarrow> unit comp \<times> store" where
  "structured_turn_h W question s =
     (case extractFieldsAndFilters_h question s of
        (Inl e, s') \<Rightarrow> (([], Inl e), s')
      | (Inr (arr, filters), s') \<Rightarrow>
          if length (elements s' arr) = 0 then (console_log SpecifyFields, s')
          else (case queryMongo_h W arr filters s' of
                  (m, s'') \<Rightarrow>
                    (and_then m (\<lambda>results.
                       if length results = 0 then console_log NoMatchingLogs
                       else and_then (pure (flatten_rows (prim_get W) (read_fields s'' arr) results))
                              (\<lambda>rows. console_log (Table rows (read_fields s'' arr)))), s'')))"

definition try_block_h :: "world \<Rightarrow> string \<Rightarrow> store \<Rightarrow> unit comp \<times> store" where
  "try_block_h W question s =
     (if isShowLogsQuery question then show_logs_turn_h W question s
      else (case js_match True re_list_unique question of
          Some uniqueMatch \<Rightarrow>
            (case uniqueMatch 1 of
               None \<Rightarrow> (pure (Inl (cannot_read ''undefined'' ''trim'')), s)
             | Some captured \<Rightarrow> list_unique_turn_h W captured s)
        | None \<Rightarrow>
            if rx_test True re_verb (trim question) then structured_turn_h W question s
            else (fallback_turn W question, s)))"

definition turn_h :: "world \<Rightarrow> string \<Rightarrow> store \<Rightarrow> (effect list \<times> store) option" where
  "turn_h W question s =
     (let q = toLowerCase (trim question)
      in if q = ''exit'' \<or> q = ''q'' then None
         else (case try_block_h W question s of (m, s') \<Rightarrow> Some (catch m, s')))"

fun main_h :: "store \<Rightarrow> (world \<times> string) list \<Rightarrow> effect list \<times> store" where
  "main_h s [] = ([], s)"
| "main_h s ((W, question) # rest) =
     (case turn_h W question s of
        None \<Rightarrow> ([], s)
      | Some (es, s') \<Rightarrow> (case main_h s' rest of (es', s'') \<Rightarrow> (es @ es', s'')))"

section \<open>Invariants of the store\<close>

text \<open>The two objects of the loaded module are as they were.\<close>

definition intact :: "store \<Rightarrow> bool" where
  "intact s = (2 \<le> length s \<and> s ! 0 = initial_store ! 0 \<and> s ! 1 = initial_store ! 1)"

text \<open>The store \<open>s'\<close> holds every cell of \<open>s\<close>, unchanged.\<close>

definition extends :: "store \<Rightarrow> store \<Rightarrow> bool" where
  "extends s s' = (length s \<le> length s' \<and> (\<forall>a < length s. s' ! a = s ! a))"

text \<open>A filter object of the program: its prototype is \<^verbatim>\<open>Object.prototype\<close>, no key is
  \<^verbatim>\<open>__proto__\<close>, and every value is a string or refers to a pattern object.\<close>

definition filter_value :: "store \<Rightarrow> nat \<Rightarrow> property \<Rightarrow> bool" where
  "filter_value s f p =
     ((\<exists>x. p = Data (HStr x)) \<or>
      (\<exists>a r. p = Data (HRef a) \<and> a < length s \<and> a \<noteq> f \<and> 2 \<le> a \<and> s ! a = pattern_object r))"

definition filter_object :: "store \<Rightarrow> nat \<Rightarrow> bool" where
  "filter_object s f =
     (f < length s \<and> 2 \<le> f \<and>
      (\<exists>ps. s ! f = Object ps (Some 0) \<and> distinct (map fst ps) \<and>
         (\<forall>(k, p) \<in> set ps. k \<noteq> ''__proto__'' \<and> filter_value s f p)))"

text \<open>The invariant of the loop over the pieces of a filter clause: since the store
  \<open>b\<close>, only the filter object \<open>f\<close> has changed, and it holds the mapping \<open>flt\<close>.\<close>

definition filling :: "store \<Rightarrow> nat \<Rightarrow> store \<Rightarrow> filters \<Rightarrow> bool" where
  "filling b f s flt =
     (intact b \<and> length b \<le> length s \<and> (\<forall>a < length b. a \<noteq> f \<longrightarrow> s ! a = b ! a) \<and>
      filter_object s f \<and> read_filters s f = flt)"

text \<open>The values of the array of fields: what the alias lookup returns.\<close>

definition field_value :: "hval \<Rightarrow> bool" where
  "field_value v = ((\<exists>p. v = HStr p \<and> p \<noteq> ''__proto__'') \<or> (\<exists>n. v = HFn n) \<or> v = HRef 0)"

definition fields_array :: "store \<Rightarrow> nat \<Rightarrow> bool" where
  "fields_array s a =
     (a < length s \<and> 2 \<le> a \<and> (\<exists>vs. s ! a = Array vs \<and> (\<forall>v \<in> set vs. field_value v)))"

text \<open>The invariant of the loop over the pieces of the field list: since the store \<open>b\<close>,
  only the array \<open>arr\<close> has changed, and it holds the fields \<open>fs\<close>.\<close>

definition collecting :: "store \<Rightarrow> nat \<Rightarrow> store \<Rightarrow> field list \<Rightarrow> bool" where
  "collecting b arr s fs =
     (intact b \<and> arr < length b \<and> 2 \<le> arr \<and>
      (\<exists>vs. s = b[arr := Array vs] \<and> (\<forall>v \<in> set vs. field_value v) \<and> map field_of vs = fs))"

text \<open>Whether the value read from a property is truthy.\<close>

fun truthy_property :: "property \<Rightarrow> bool" where
  "truthy_property (Data v) = truthy_h v"
| "truthy_property ProtoAccessor = True"

section \<open>What a call returns\<close>

text \<open>What a call of an extractor returns: the exception, or what the objects hold that it
  returns.\<close>

definition filters_result :: "(error + nat) \<times> store \<Rightarrow> error + filters" where
  "filters_result r =
     (case r of (Inl e, s) \<Rightarrow> Inl e | (Inr f, s) \<Rightarrow> Inr (read_filters s f))"

definition parsed_result :: "(error + nat \<times> nat) \<times> store \<Rightarrow> error + parsed" where
  "parsed_result r =
     (case r of
        (Inl e, s) \<Rightarrow> Inl e
      | (Inr (arr, f), s) \<Rightarrow>
          Inr \<lparr>the_fields = read_fields s arr, the_filters = read_filters s f\<rparr>)"

text \<open>The branch of each intent.\<close>

definition branch_h :: "intent \<Rightarrow> world \<Rightarrow> string \<Rightarrow> store \<Rightarrow> unit comp \<times> store" where
  "branch_h i W question s =
     (case i of
        ShowAllLogs \<Rightarrow> show_logs_turn_h W question s
      | ListUniqueField \<Rightarrow>
          (case js_match True re_list_unique question of
             None \<Rightarrow> (pure (Inr ()), s)
           | Some uniqueMatch \<Rightarrow>
               (case uniqueMatch 1 of
                  None \<Rightarrow> (pure (Inl (cannot_read ''undefined'' ''trim'')), s)
                | Some captured \<Rightarrow> list_unique_turn_h W captured s))
      | StructuredList \<Rightarrow> structured_turn_h W question s
      | SemanticFallback \<Rightarrow> (fallback_turn W question, s))"

section \<open>Characters\<close>

lemma cu_less: "cu c < 256"
  by (simp add: cu_def)

lemma cu_inj: "cu c = cu d \<longleftrightarrow> c = d"
  by (simp add: cu_def)

lemma cu_char_of: "n < 256 \<Longrightarrow> cu (char_of n) = n"
  by (simp add: cu_def)

lemma cu_canonicalize:
  "cu (canonicalize c) =
     (if is_ascii_lower c \<or> (224 \<le> cu c \<and> cu c \<le> 254 \<and> cu c \<noteq> 247) then cu c - 32 else cu c)"
  using cu_less[of c] by (simp add: canonicalize_def cu_char_of)

lemma chr_eq_lower:
  assumes "is_ascii_lower a"
  shows "chr_eq True a c \<longleftrightarrow> cu c = cu a \<or> cu c + 32 = cu a"
proof -
  have "chr_eq True a c \<longleftrightarrow> cu (canonicalize a) = cu (canonicalize c)"
    by (simp add: chr_eq_def cu_inj)
  also have "\<dots> \<longleftrightarrow> cu c = cu a \<or> cu c + 32 = cu a"
    using assms cu_less[of a] cu_less[of c]
    by (auto simp: cu_canonicalize is_ascii_lower_def)
  finally show ?thesis .
qed

lemma chr_eq_lower_word: "is_ascii_lower a \<Longrightarrow> chr_eq True a c \<Longrightarrow> is_word c"
  by (auto simp: chr_eq_lower is_word_def is_ascii_lower_def is_ascii_upper_def)

lemma chr_eq_lower_not_space: "is_ascii_lower a \<Longrightarrow> chr_eq True a c \<Longrightarrow> \<not> is_space c"
  by (auto simp: chr_eq_lower is_space_def is_ascii_lower_def)

subsection \<open>When a pattern matches\<close>

text \<open>A match exists exactly when the input splits into pieces that the parts of the
  pattern accept, whatever the order in which the matcher tries them.\<close>

lemma lit_match_iff:
  "lit_match ic w p s = Some (p', s') \<longleftrightarrow>
     (\<exists>u. s = u @ s' \<and> list_all2 (chr_eq ic) w u \<and> p' = (if u = [] then p else Some (last u)))"
proof (induction ic w p s rule: lit_match.induct)
  case (1 ic p s)
  then show ?case by auto
next
  case (2 ic a as p)
  then show ?case by (auto simp: list_all2_Cons1)
next
  case (3 ic a as p c cs)
  show ?case
  proof (cases "chr_eq ic a c")
    case True
    with 3 show ?thesis
      apply (simp add: list_all2_Cons1)
      apply (rule iffI)
       apply (elim exE conjE)
      subgoal for u by (rule exI[of _ "c # u"]) auto
      apply (elim exE conjE)
      subgoal for u by (cases u) (auto split: if_splits)
      done
  next
    case False
    then show ?thesis
      by (auto simp: list_all2_Cons1)
  qed
qed

lemma plus_greedy_ok:
  "plus_greedy P s k \<noteq> None \<longleftrightarrow>
     (\<exists>u c s'. s = u @ c # s' \<and> (\<forall>x \<in> set u. P x) \<and> P c \<and> k c s' \<noteq> None)"
proof (induction s)
  case Nil
  then show ?case by simp
next
  case (Cons a s)
  show ?case
  proof (cases "P a")
    case False
    then show ?thesis
      by (auto simp: Cons_eq_append_conv)
  next
    case True
    have "plus_greedy P (a # s) k \<noteq> None \<longleftrightarrow> plus_greedy P s k \<noteq> None \<or> k a s \<noteq> None"
      using True by (auto split: option.splits)
    also have "\<dots> \<longleftrightarrow> (\<exists>u c s'. a # s = u @ c # s' \<and> (\<forall>x \<in> set u. P x) \<and> P c \<and> k c s' \<noteq> None)"
      (is "?L \<longleftrightarrow> ?R")
    proof
      assume ?L
      then show ?R
      proof
        assume "plus_greedy P s k \<noteq> None"
        then obtain u c s' where "s = u @ c # s'" "\<forall>x \<in> set u. P x" "P c" "k c s' \<noteq> None"
          using Cons.IH by blast
        then show ?R
          using True by (intro exI[of _ "a # u"] exI[of _ c] exI[of _ s']) auto
      next
        assume "k a s \<noteq> None"
        then show ?R
          using True by (intro exI[of _ "[]"] exI[of _ a] exI[of _ s]) auto
      qed
    next
      assume ?R
      then obtain u c s' where h: "a # s = u @ c # s'" "\<forall>x \<in> set u. P x" "P c" "k c s' \<noteq> None"
        by blast
      show ?L
      proof (cases u)
        case Nil
        with h show ?thesis by auto
      next
        case (Cons b u')
        with h have "s = u' @ c # s'" "\<forall>x \<in> set u'. P x" by auto
        with h Cons.IH show ?thesis by blast
      qed
    qed
    finally show ?thesis .
  qed
qed

lemma plus_lazy_ok: "plus_lazy P s k \<noteq> None \<longleftrightarrow> plus_greedy P s k \<noteq> None"
  by (induction s) (auto split: option.splits)


lemma ok_Lit:
  "rx_match ic (Lit w) (p, s, caps) k \<noteq> None \<longleftrightarrow>
     (\<exists>u s'. s = u @ s' \<and> list_all2 (chr_eq ic) w u \<and>
        k (if u = [] then p else Some (last u), s', caps) \<noteq> None)"
proof -
  have "rx_match ic (Lit w) (p, s, caps) k \<noteq> None \<longleftrightarrow>
          (\<exists>p' s'. lit_match ic w p s = Some (p', s') \<and> k (p', s', caps) \<noteq> None)"
    by (auto split: option.splits)
  then show ?thesis
    unfolding lit_match_iff by blast
qed

lemma ok_Opt:
  "rx_match ic (Opt a) st k \<noteq> None \<longleftrightarrow> rx_match ic a st k \<noteq> None \<or> k st \<noteq> None"
  by (auto split: option.splits)

lemma ok_Alt:
  "rx_match ic (Alt a b) st k \<noteq> None \<longleftrightarrow> rx_match ic a st k \<noteq> None \<or> rx_match ic b st k \<noteq> None"
  by (auto split: option.splits)

lemma ok_Plus:
  "rx_match ic (Plus a) (p, s, caps) k \<noteq> None \<longleftrightarrow>
     (\<exists>u c s'. s = u @ c # s' \<and> (\<forall>x \<in> set u. atom_ok a x) \<and> atom_ok a c \<and>
        k (Some c, s', caps) \<noteq> None)"
  by (simp add: plus_greedy_ok del: not_None_eq)

lemma ok_PlusLazy:
  "rx_match ic (PlusLazy a) (p, s, caps) k \<noteq> None \<longleftrightarrow>
     (\<exists>u c s'. s = u @ c # s' \<and> (\<forall>x \<in> set u. atom_ok a x) \<and> atom_ok a c \<and>
        k (Some c, s', caps) \<noteq> None)"
  by (simp add: plus_lazy_ok plus_greedy_ok del: not_None_eq)

lemma ok_Star:
  "rx_match ic (Star a) (p, s, caps) k \<noteq> None \<longleftrightarrow>
     (\<exists>u c s'. s = u @ c # s' \<and> (\<forall>x \<in> set u. atom_ok a x) \<and> atom_ok a c \<and>
        k (Some c, s', caps) \<noteq> None) \<or> k (p, s, caps) \<noteq> None"
  using plus_greedy_ok[of "atom_ok a" s "\<lambda>c s'. k (Some c, s', caps)"]
  by (auto split: option.splits)

lemma ok_WordB:
  "rx_match ic WordB (p, s, caps) k \<noteq> None \<longleftrightarrow> at_boundary p s \<and> k (p, s, caps) \<noteq> None"
  by simp

lemma ok_Eol:
  "rx_match ic Eol (p, s, caps) k \<noteq> None \<longleftrightarrow> s = [] \<and> k (p, s, caps) \<noteq> None"
  by simp

lemma search_Bol_later: "rx_search ic (Seq Bol r) (Some c) s = None"
  by (induction s arbitrary: c) auto

lemma search_Bol:
  "rx_search ic (Seq Bol r) None s \<noteq> None \<longleftrightarrow> rx_match ic r (None, s, Map.empty) Some \<noteq> None"
  by (cases s) (auto simp: search_Bol_later split: option.splits)

lemma blanks_iff:
  "blanks b \<longleftrightarrow> (\<exists>u c. b = u @ [c] \<and> (\<forall>x \<in> set u. is_space x) \<and> is_space c)"
  unfolding blanks_def by (cases b rule: rev_cases) auto


lemma same_word_nonempty: "same_word (a # w) u \<Longrightarrow> u \<noteq> []"
  by (auto simp: same_word_def)

lemma ok_word:
  "rx_match True (Lit (a # w)) (p, s, caps) k \<noteq> None \<longleftrightarrow>
     (\<exists>u s'. s = u @ s' \<and> same_word (a # w) u \<and> k (Some (last u), s', caps) \<noteq> None)"
  unfolding ok_Lit same_word_def
  by (intro iff_exI) (auto simp: list_all2_Cons1)

lemma ok_blanks:
  "rx_match ic (Plus Space) (p, s, caps) k \<noteq> None \<longleftrightarrow>
     (\<exists>b s'. s = b @ s' \<and> blanks b \<and> k (Some (last b), s', caps) \<noteq> None)"
proof
  assume "rx_match ic (Plus Space) (p, s, caps) k \<noteq> None"
  then obtain u c s' where "s = u @ c # s'" "\<forall>x \<in> set u. is_space x" "is_space c"
      "k (Some c, s', caps) \<noteq> None"
    unfolding ok_Plus by auto
  then show "\<exists>b s'. s = b @ s' \<and> blanks b \<and> k (Some (last b), s', caps) \<noteq> None"
    by (intro exI[of _ "u @ [c]"] exI[of _ s']) (auto simp: blanks_def)
next
  assume "\<exists>b s'. s = b @ s' \<and> blanks b \<and> k (Some (last b), s', caps) \<noteq> None"
  then obtain b s' where h: "s = b @ s'" "blanks b" "k (Some (last b), s', caps) \<noteq> None"
    by blast
  from h(2) obtain u c where "b = u @ [c]" "\<forall>x \<in> set u. is_space x" "is_space c"
    unfolding blanks_iff by blast
  with h show "rx_match ic (Plus Space) (p, s, caps) k \<noteq> None"
    unfolding ok_Plus by (intro exI[of _ u] exI[of _ c] exI[of _ s']) auto
qed

lemma lower_letters:
  "is_ascii_lower (CHR ''s'')" "is_ascii_lower (CHR ''t'')" "is_ascii_lower (CHR ''w'')"
  "is_ascii_lower (CHR ''d'')" "is_ascii_lower (CHR ''e'')" "is_ascii_lower (CHR ''l'')"
  "is_ascii_lower (CHR ''a'')" "is_ascii_lower (CHR ''f'')" "is_ascii_lower (CHR ''u'')"
  by (simp_all add: is_ascii_lower_def cu_def)

lemma same_word_last:
  "same_word w u \<Longrightarrow> w \<noteq> [] \<Longrightarrow> chr_eq True (last w) (last u)"
  unfolding same_word_def
  by (induction w u rule: list_all2_induct) (auto simp: list_all2_Nil)

lemma word_boundary:
  assumes "same_word w u" "w \<noteq> []" "is_ascii_lower (last w)"
  shows "at_boundary (Some (last u)) rest \<longleftrightarrow> token_end rest"
proof -
  have "chr_eq True (last w) (last u)"
    using assms(1,2) by (rule same_word_last)
  with assms(3) have "is_word (last u)"
    by (rule chr_eq_lower_word)
  then show ?thesis
    by (auto simp: at_boundary_def token_end_def split: list.splits)
qed

subsection \<open>The three patterns of the classifier\<close>

text \<open>The tail of the pattern of \<^verbatim>\<open>isShowLogsQuery\<close>, piece by piece.\<close>

lemma show_logs_pieces:
  "(\<exists>a s1. q = a @ s1 \<and> same_word ''show'' a \<and>
      (\<exists>b s2. s1 = b @ s2 \<and> blanks b \<and>
        ((\<exists>c1 s3. s2 = c1 @ s3 \<and> same_word ''all'' c1 \<and>
            (\<exists>c2 s4. s3 = c2 @ s4 \<and> blanks c2 \<and>
               (\<exists>d rest. s4 = d @ rest \<and> same_word ''logs'' d \<and> token_end rest))) \<or>
         (\<exists>d rest. s2 = d @ rest \<and> same_word ''logs'' d \<and> token_end rest))))
   \<longleftrightarrow> matches_show_logs q"
  (is "?M \<longleftrightarrow> _")
proof
  assume ?M
  then show "matches_show_logs q"
    unfolding matches_show_logs_def
  proof (elim exE conjE disjE)
    fix a s1 b s2 c1 s3 c2 s4 d rest
    assume "q = a @ s1" "same_word ''show'' a" "s1 = b @ s2" "blanks b" "s2 = c1 @ s3"
      "same_word ''all'' c1" "s3 = c2 @ s4" "blanks c2" "s4 = d @ rest" "same_word ''logs'' d"
      "token_end rest"
    then have "q = a @ b @ (c1 @ c2) @ d @ rest \<and> same_word ''show'' a \<and> blanks b \<and>
        (c1 @ c2 = [] \<or> (\<exists>x y. c1 @ c2 = x @ y \<and> same_word ''all'' x \<and> blanks y)) \<and>
        same_word ''logs'' d \<and> token_end rest"
      by auto
    then show "\<exists>a b c d rest. q = a @ b @ c @ d @ rest \<and> same_word ''show'' a \<and> blanks b \<and>
        (c = [] \<or> (\<exists>c1 c2. c = c1 @ c2 \<and> same_word ''all'' c1 \<and> blanks c2)) \<and>
        same_word ''logs'' d \<and> token_end rest"
      by (rule_tac x = a in exI, rule_tac x = b in exI, rule_tac x = "c1 @ c2" in exI,
          rule_tac x = d in exI, rule_tac x = rest in exI)
  next
    fix a s1 b s2 d rest
    assume "q = a @ s1" "same_word ''show'' a" "s1 = b @ s2" "blanks b" "s2 = d @ rest"
      "same_word ''logs'' d" "token_end rest"
    then have "q = a @ b @ [] @ d @ rest \<and> same_word ''show'' a \<and> blanks b \<and>
        ([] = [] \<or> (\<exists>x y. [] = x @ y \<and> same_word ''all'' x \<and> blanks y)) \<and>
        same_word ''logs'' d \<and> token_end rest"
      by simp
    then show "\<exists>a b c d rest. q = a @ b @ c @ d @ rest \<and> same_word ''show'' a \<and> blanks b \<and>
        (c = [] \<or> (\<exists>c1 c2. c = c1 @ c2 \<and> same_word ''all'' c1 \<and> blanks c2)) \<and>
        same_word ''logs'' d \<and> token_end rest"
      by (rule_tac x = a in exI, rule_tac x = b in exI, rule_tac x = "[]" in exI,
          rule_tac x = d in exI, rule_tac x = rest in exI)
  qed
next
  assume "matches_show_logs q"
  then obtain a b c d rest where q: "q = a @ b @ c @ d @ rest" and a: "same_word ''show'' a"
    and b: "blanks b"
    and c: "c = [] \<or> (\<exists>c1 c2. c = c1 @ c2 \<and> same_word ''all'' c1 \<and> blanks c2)"
    and d: "same_word ''logs'' d" "token_end rest"
    unfolding matches_show_logs_def by (elim exE conjE)
  have logs: "\<exists>d' rest'. d @ rest = d' @ rest' \<and> same_word ''logs'' d' \<and> token_end rest'"
    using d by blast
  from c have "(\<exists>c1 s3. c @ d @ rest = c1 @ s3 \<and> same_word ''all'' c1 \<and>
            (\<exists>c2 s4. s3 = c2 @ s4 \<and> blanks c2 \<and>
               (\<exists>d rest. s4 = d @ rest \<and> same_word ''logs'' d \<and> token_end rest))) \<or>
         (\<exists>d' rest'. c @ d @ rest = d' @ rest' \<and> same_word ''logs'' d' \<and> token_end rest')"
  proof
    assume "c = []"
    with logs show ?thesis by simp
  next
    assume "\<exists>c1 c2. c = c1 @ c2 \<and> same_word ''all'' c1 \<and> blanks c2"
    then obtain c1 c2 where c12: "c = c1 @ c2" "same_word ''all'' c1" "blanks c2"
      by (elim exE conjE)
    from logs c12(3) have "\<exists>x s4. c2 @ d @ rest = x @ s4 \<and> blanks x \<and>
               (\<exists>d rest. s4 = d @ rest \<and> same_word ''logs'' d \<and> token_end rest)"
      by blast
    with c12(1,2) have "\<exists>x s3. c @ d @ rest = x @ s3 \<and> same_word ''all'' x \<and>
            (\<exists>c2 s4. s3 = c2 @ s4 \<and> blanks c2 \<and>
               (\<exists>d rest. s4 = d @ rest \<and> same_word ''logs'' d \<and> token_end rest))"
      by (rule_tac x = c1 in exI, rule_tac x = "c2 @ d @ rest" in exI) simp
    then show ?thesis ..
  qed
  with b have "\<exists>x s2. b @ c @ d @ rest = x @ s2 \<and> blanks x \<and>
        ((\<exists>c1 s3. s2 = c1 @ s3 \<and> same_word ''all'' c1 \<and>
            (\<exists>c2 s4. s3 = c2 @ s4 \<and> blanks c2 \<and>
               (\<exists>d rest. s4 = d @ rest \<and> same_word ''logs'' d \<and> token_end rest))) \<or>
         (\<exists>d rest. s2 = d @ rest \<and> same_word ''logs'' d \<and> token_end rest))"
    by (rule_tac x = b in exI, rule_tac x = "c @ d @ rest" in exI) simp
  with q a show ?M
    by (rule_tac x = a in exI, rule_tac x = "b @ c @ d @ rest" in exI) simp
qed

lemma test_show_logs: "rx_test True re_show_logs q \<longleftrightarrow> matches_show_logs q"
proof -
  have "rx_test True re_show_logs q \<longleftrightarrow>
    (\<exists>a s1. q = a @ s1 \<and> same_word ''show'' a \<and>
      (\<exists>b s2. s1 = b @ s2 \<and> blanks b \<and>
        ((\<exists>c1 s3. s2 = c1 @ s3 \<and> same_word ''all'' c1 \<and>
            (\<exists>c2 s4. s3 = c2 @ s4 \<and> blanks c2 \<and>
               (\<exists>d rest. s4 = d @ rest \<and> same_word ''logs'' d \<and> at_boundary (Some (last d)) rest))) \<or>
         (\<exists>d rest. s2 = d @ rest \<and> same_word ''logs'' d \<and> at_boundary (Some (last d)) rest))))"
    unfolding rx_test_def re_show_logs_def
    by (simp add: search_Bol ok_word ok_blanks ok_Opt ok_WordB del: rx_match.simps(1,3,4,5,6,7,10,11) not_None_eq)
  also have "\<dots> \<longleftrightarrow>
    (\<exists>a s1. q = a @ s1 \<and> same_word ''show'' a \<and>
      (\<exists>b s2. s1 = b @ s2 \<and> blanks b \<and>
        ((\<exists>c1 s3. s2 = c1 @ s3 \<and> same_word ''all'' c1 \<and>
            (\<exists>c2 s4. s3 = c2 @ s4 \<and> blanks c2 \<and>
               (\<exists>d rest. s4 = d @ rest \<and> same_word ''logs'' d \<and> token_end rest))) \<or>
         (\<exists>d rest. s2 = d @ rest \<and> same_word ''logs'' d \<and> token_end rest))))"
    using word_boundary[of "''logs''"] by (simp add: lower_letters cong: conj_cong)
  also have "\<dots> \<longleftrightarrow> matches_show_logs q"
    by (rule show_logs_pieces)
  finally show ?thesis .
qed

lemma js_match_ok: "js_match ic r s \<noteq> None \<longleftrightarrow> rx_search ic r None s \<noteq> None"
  by (auto simp: js_match_def split: option.splits)

lemma test_verb: "rx_test True re_verb q \<longleftrightarrow> leading_verb q"
proof -
  have "rx_test True re_verb q \<longleftrightarrow>
     (\<exists>u s'. q = u @ s' \<and> same_word ''list'' u \<and> at_boundary (Some (last u)) s') \<or>
     (\<exists>u s'. q = u @ s' \<and> same_word ''show'' u \<and> at_boundary (Some (last u)) s') \<or>
     (\<exists>u s'. q = u @ s' \<and> same_word ''find'' u \<and> at_boundary (Some (last u)) s')"
    unfolding rx_test_def re_verb_def
    by (simp add: search_Bol ok_word ok_Alt ok_WordB del: rx_match.simps(1,3,4,5,6,7,10,11) not_None_eq)
  also have "\<dots> \<longleftrightarrow>
     (\<exists>u s'. q = u @ s' \<and> same_word ''list'' u \<and> token_end s') \<or>
     (\<exists>u s'. q = u @ s' \<and> same_word ''show'' u \<and> token_end s') \<or>
     (\<exists>u s'. q = u @ s' \<and> same_word ''find'' u \<and> token_end s')"
    using word_boundary[of "''list''"] word_boundary[of "''show''"] word_boundary[of "''find''"]
    by (simp add: lower_letters cong: conj_cong)
  also have "\<dots> \<longleftrightarrow> leading_verb q"
    unfolding leading_verb_def by blast
  finally show ?thesis .
qed

lemma ok_dots:
  "rx_match ic (Plus Dot) (p, s, caps) k \<noteq> None \<longleftrightarrow>
     (\<exists>u c s'. s = u @ c # s' \<and> (\<forall>x \<in> set u. is_dot x) \<and> is_dot c \<and>
        k (Some c, s', caps) \<noteq> None)"
  using ok_Plus[of ic Dot p s caps k] by (simp del: not_None_eq rx_match.simps)

lemma dots_iff:
  "(\<exists>u ch. x = u @ [ch] \<and> (\<forall>c \<in> set u. is_dot c) \<and> is_dot ch) \<longleftrightarrow>
     x \<noteq> [] \<and> (\<forall>c \<in> set x. is_dot c)"
  by (cases x rule: rev_cases) auto

lemma match_list_unique: "js_match True re_list_unique q \<noteq> None \<longleftrightarrow> matches_list_unique q"
proof -
  have "js_match True re_list_unique q \<noteq> None \<longleftrightarrow>
    (\<exists>a s1. q = a @ s1 \<and> same_word ''list'' a \<and>
      (\<exists>b s2. s1 = b @ s2 \<and> blanks b \<and>
        (\<exists>c s3. s2 = c @ s3 \<and> same_word ''unique'' c \<and>
          (\<exists>d s4. s3 = d @ s4 \<and> blanks d \<and>
            (\<exists>u ch. s4 = u @ [ch] \<and> (\<forall>x \<in> set u. is_dot x) \<and> is_dot ch)))))"
    unfolding js_match_ok re_list_unique_def
    by (simp add: search_Bol ok_word ok_blanks ok_dots ok_Eol
          del: rx_match.simps(1,3,4,5,6,7,10,11) not_None_eq)
  also have "\<dots> \<longleftrightarrow>
    (\<exists>a s1. q = a @ s1 \<and> same_word ''list'' a \<and>
      (\<exists>b s2. s1 = b @ s2 \<and> blanks b \<and>
        (\<exists>c s3. s2 = c @ s3 \<and> same_word ''unique'' c \<and>
          (\<exists>d s4. s3 = d @ s4 \<and> blanks d \<and> s4 \<noteq> [] \<and> (\<forall>x \<in> set s4. is_dot x)))))"
    unfolding dots_iff ..
  also have "\<dots> \<longleftrightarrow> matches_list_unique q"
    unfolding matches_list_unique_def by blast
  finally show ?thesis .
qed

section \<open>Effects of a turn\<close>

lemma and_then_Inl: "and_then (es, Inl e) f = (es, Inl e)"
  by (simp add: and_then_def)

lemma and_then_Inr: "and_then (es, Inr x) f = (es @ fst (f x), snd (f x))"
  by (simp add: and_then_def split: prod.splits)

lemma set_and_then:
  "set (fst (and_then m f)) =
     set (fst m) \<union> (case snd m of Inl e \<Rightarrow> {} | Inr x \<Rightarrow> set (fst (f x)))"
  by (cases m; case_tac b) (auto simp: and_then_Inl and_then_Inr)

lemmas comp_defs = pure_def request_def console_log_def

lemma print_entries_unfiltered: "e \<in> set (print_entries i ds) \<Longrightarrow> unfiltered e"
  by (induction ds arbitrary: i) (auto simp: unfiltered_def)

lemma print_values_unfiltered: "e \<in> set (fst (print_values vs)) \<Longrightarrow> unfiltered e"
  by (induction vs) (auto simp: unfiltered_def set_and_then comp_defs split: sum.splits)

lemma show_logs_unfiltered: "e \<in> set (fst (show_logs_turn W A q)) \<Longrightarrow> unfiltered e"
  by (auto simp: show_logs_turn_def set_and_then comp_defs Let_def unfiltered_def
      split: sum.splits if_splits dest: print_entries_unfiltered)

lemma list_unique_unfiltered: "e \<in> set (fst (list_unique_turn W A c)) \<Longrightarrow> unfiltered e"
  by (auto simp: list_unique_turn_def set_and_then comp_defs Let_def unfiltered_def
      split: sum.splits if_splits dest: print_values_unfiltered)

lemma structured_unfiltered: "e \<in> set (fst (structured_turn W A q)) \<Longrightarrow> unfiltered e"
  by (auto simp: structured_turn_def queryMongo_def set_and_then comp_defs Let_def unfiltered_def
      split: sum.splits if_splits)

lemma fallback_unfiltered: "e \<in> set (fst (fallback_turn W q)) \<Longrightarrow> unfiltered e"
  by (auto simp: fallback_turn_def generateEmbedding_def askMistral_def searchSimilarLogs_def
        set_and_then comp_defs Let_def unfiltered_def split: sum.splits if_splits)

lemma try_block_unfiltered: "e \<in> set (fst (try_block W A q)) \<Longrightarrow> unfiltered e"
  unfolding try_block_def
  by (auto simp: pure_def split: option.splits if_splits
      dest: show_logs_unfiltered list_unique_unfiltered structured_unfiltered fallback_unfiltered)

lemma catch_set: "set (catch m) \<subseteq> set (fst m) \<union> range PrintError"
  by (cases m; case_tac b) (auto simp: catch_def)


section \<open>Filter mappings\<close>










section \<open>Captures and totality of the extractors\<close>

subsection \<open>Where the result of a match comes from\<close>

lemma plus_greedy_from:
  "plus_greedy P s k = Some y \<Longrightarrow>
     \<exists>u c s'. s = u @ c # s' \<and> (\<forall>x \<in> set u. P x) \<and> P c \<and> k c s' = Some y"
proof (induction s)
  case Nil
  then show ?case by simp
next
  case (Cons a s)
  from Cons.prems have Pa: "P a"
    by (auto split: if_splits)
  show ?case
  proof (cases "plus_greedy P s k")
    case None
    with Cons.prems Pa have "k a s = Some y" by simp
    with Pa show ?thesis
      by (intro exI[of _ "[]"] exI[of _ a] exI[of _ s]) simp
  next
    case (Some r)
    with Cons.prems Pa have "plus_greedy P s k = Some y" by simp
    then obtain u c s' where "s = u @ c # s'" "\<forall>x \<in> set u. P x" "P c" "k c s' = Some y"
      using Cons.IH by blast
    with Pa show ?thesis
      by (intro exI[of _ "a # u"] exI[of _ c] exI[of _ s']) simp
  qed
qed

lemma plus_lazy_from:
  "plus_lazy P s k = Some y \<Longrightarrow>
     \<exists>u c s'. s = u @ c # s' \<and> (\<forall>x \<in> set u. P x) \<and> P c \<and> k c s' = Some y"
proof (induction s)
  case Nil
  then show ?case by simp
next
  case (Cons a s)
  from Cons.prems have Pa: "P a"
    by (auto split: if_splits)
  show ?case
  proof (cases "k a s")
    case (Some r)
    with Cons.prems Pa have "k a s = Some y" by simp
    with Pa show ?thesis
      by (intro exI[of _ "[]"] exI[of _ a] exI[of _ s]) simp
  next
    case None
    with Cons.prems Pa have "plus_lazy P s k = Some y" by simp
    then obtain u c s' where "s = u @ c # s'" "\<forall>x \<in> set u. P x" "P c" "k c s' = Some y"
      using Cons.IH by blast
    with Pa show ?thesis
      by (intro exI[of _ "a # u"] exI[of _ c] exI[of _ s']) simp
  qed
qed

text \<open>A result is a result of the continuation, at a state with at least the captures
  that were set before.\<close>

lemma rx_match_grows:
  "rx_match ic r (p, s, caps) k = Some y \<Longrightarrow>
     \<exists>p' s' caps'. k (p', s', caps') = Some y \<and> dom caps \<subseteq> dom caps'"
proof (induction r arbitrary: p s caps k)
  case (Lit w)
  then show ?case
    by (auto split: option.splits)
next
  case (Seq a b)
  from Seq.prems have "rx_match ic a (p, s, caps) (\<lambda>st'. rx_match ic b st' k) = Some y"
    by simp
  then obtain p1 s1 caps1 where
    1: "rx_match ic b (p1, s1, caps1) k = Some y" "dom caps \<subseteq> dom caps1"
    using Seq.IH(1) by blast
  then obtain p2 s2 caps2 where "k (p2, s2, caps2) = Some y" "dom caps1 \<subseteq> dom caps2"
    using Seq.IH(2) by blast
  with 1 show ?case by blast
next
  case (Alt a b)
  then show ?case
    by (auto split: option.splits)
next
  case (Opt a)
  then show ?case
    by (auto split: option.splits)
next
  case (Plus a)
  then show ?case
    by (auto dest!: plus_greedy_from)
next
  case (Star a)
  then show ?case
    by (auto dest!: plus_greedy_from split: option.splits)
next
  case (PlusLazy a)
  then show ?case
    by (auto dest!: plus_lazy_from)
next
  case (Group n a)
  from Group.prems have
    "rx_match ic a (p, s, caps)
       (\<lambda>(p', s', caps'). k (p', s', caps'(n \<mapsto> take (length s - length s') s))) = Some y"
    by simp
  from Group.IH[OF this] obtain p1 s1 caps1 where
    1: "k (p1, s1, caps1(n \<mapsto> take (length s - length s1) s)) = Some y" "dom caps \<subseteq> dom caps1"
    by auto
  from 1(2) have "dom caps \<subseteq> dom (caps1(n \<mapsto> take (length s - length s1) s))"
    by auto
  with 1(1) show ?case by blast
next
  case Bol
  then show ?case by (auto split: if_splits)
next
  case Eol
  then show ?case by (auto split: if_splits)
next
  case WordB
  then show ?case by (auto split: if_splits)
qed

lemma group_sets:
  assumes "rx_match ic (Group n a) (p, s, caps) k = Some y"
  shows "\<exists>p' s' caps'. k (p', s', caps') = Some y \<and> n \<in> dom caps'"
proof -
  from assms have
    "rx_match ic a (p, s, caps)
       (\<lambda>(p', s', caps'). k (p', s', caps'(n \<mapsto> take (length s - length s') s))) = Some y"
    by simp
  from rx_match_grows[OF this] obtain p1 s1 caps1 where
    1: "k (p1, s1, caps1(n \<mapsto> take (length s - length s1) s)) = Some y"
    by auto
  have "n \<in> dom (caps1(n \<mapsto> take (length s - length s1) s))"
    by simp
  with 1 show ?thesis by blast
qed

lemma rx_search_from:
  "rx_search ic r p s = Some (pre, st) \<Longrightarrow>
     \<exists>p' s'. rx_match ic r (p', s', Map.empty) Some = Some st"
proof (induction s arbitrary: p pre)
  case Nil
  then show ?case by (auto split: option.splits)
next
  case (Cons c cs)
  show ?case
  proof (cases "rx_match ic r (p, c # cs, Map.empty) Some")
    case (Some st')
    with Cons.prems show ?thesis by auto
  next
    case None
    with Cons.prems obtain pre' where "rx_search ic r (Some c) cs = Some (pre', st)"
      by (auto split: option.splits)
    with Cons.IH show ?thesis by blast
  qed
qed

lemma filter_intro_capture:
  assumes "js_match True re_filter_intro q = Some m"
  shows "m 1 \<noteq> None"
proof -
  from assms obtain pre p s where "rx_search True re_filter_intro None q = Some (pre, p, s, m)"
    by (auto simp: js_match_def split: option.splits)
  then obtain p0 s0 where "rx_match True re_filter_intro (p0, s0, Map.empty) Some = Some (p, s, m)"
    using rx_search_from by blast
  then have "rx_match True (alts [Lit ''for'', Lit ''with'', Lit ''where'', Lit ''having''])
      (p0, s0, Map.empty)
      (\<lambda>st. rx_match True (Plus Space) st (\<lambda>st'. rx_match True (Group 1 (Star Dot)) st' Some)) =
      Some (p, s, m)"
    by (simp add: re_filter_intro_def del: rx_match.simps(1,3,5,8))
  from rx_match_grows[OF this] obtain p1 s1 c1 where "rx_match True (Plus Space) (p1, s1, c1)
      (\<lambda>st'. rx_match True (Group 1 (Star Dot)) st' Some) = Some (p, s, m)"
    by blast
  from rx_match_grows[OF this] obtain p2 s2 c2 where
    "rx_match True (Group 1 (Star Dot)) (p2, s2, c2) Some = Some (p, s, m)"
    by blast
  from group_sets[OF this] obtain p3 s3 c3 where "Some (p3, s3, c3) = Some (p, s, m)" "1 \<in> dom c3"
    by blast
  then show ?thesis by auto
qed

lemma extractFiltersOnly_total: "\<exists>flt. extractFiltersOnly A q = Inr flt"
  using filter_intro_capture[of q]
  by (auto simp: extractFiltersOnly_def split: option.splits)

lemma structured_capture:
  assumes "js_match True re_structured q = Some m"
  shows "m 1 \<noteq> None"
proof -
  from assms obtain pre p s where "rx_search True re_structured None q = Some (pre, p, s, m)"
    by (auto simp: js_match_def split: option.splits)
  then obtain p0 s0 where "rx_match True re_structured (p0, s0, Map.empty) Some = Some (p, s, m)"
    using rx_search_from by blast
  then have "rx_match True (alts [Lit ''list'', Lit ''show'', Lit ''find''])
      (p0, s0, Map.empty)
      (\<lambda>st. rx_match True (Plus Space) st
         (\<lambda>st'. rx_match True (Group 1 (PlusLazy Dot)) st'
            (\<lambda>st''. rx_match True
               (seqs [Opt (seqs [Plus Space, alts [Lit ''where'', Lit ''with'', Lit ''having'', Lit ''for''],
                         Plus Space, Group 2 (Plus Dot)]), Eol]) st'' Some))) =
      Some (p, s, m)"
    by (simp add: re_structured_def del: rx_match.simps(1,3,4,5,7,8,10) split: if_splits)
  from rx_match_grows[OF this] obtain p1 s1 c1 where "rx_match True (Plus Space) (p1, s1, c1)
         (\<lambda>st'. rx_match True (Group 1 (PlusLazy Dot)) st'
            (\<lambda>st''. rx_match True
               (seqs [Opt (seqs [Plus Space, alts [Lit ''where'', Lit ''with'', Lit ''having'', Lit ''for''],
                         Plus Space, Group 2 (Plus Dot)]), Eol]) st'' Some)) = Some (p, s, m)"
    by blast
  from rx_match_grows[OF this] obtain p2 s2 c2 where "rx_match True (Group 1 (PlusLazy Dot)) (p2, s2, c2)
            (\<lambda>st''. rx_match True
               (seqs [Opt (seqs [Plus Space, alts [Lit ''where'', Lit ''with'', Lit ''having'', Lit ''for''],
                         Plus Space, Group 2 (Plus Dot)]), Eol]) st'' Some) = Some (p, s, m)"
    by blast
  from group_sets[OF this] obtain p3 s3 c3 where 3: "rx_match True
               (seqs [Opt (seqs [Plus Space, alts [Lit ''where'', Lit ''with'', Lit ''having'', Lit ''for''],
                         Plus Space, Group 2 (Plus Dot)]), Eol]) (p3, s3, c3) Some = Some (p, s, m)"
      "1 \<in> dom c3"
    by blast
  from rx_match_grows[OF 3(1)] obtain p4 s4 c4 where "Some (p4, s4, c4) = Some (p, s, m)" "dom c3 \<subseteq> dom c4"
    by blast
  with 3(2) show ?thesis by auto
qed

lemma extractFieldsAndFilters_total: "\<exists>r. extractFieldsAndFilters A q = Inr r"
  using structured_capture[of q]
  by (auto simp: extractFieldsAndFilters_def Let_def split: option.splits)

section \<open>The character class of field names and the alias lookup\<close>

lemma cu_Char:
  "cu (Char b0 b1 b2 b3 b4 b5 b6 b7) = horner_sum of_bool 2 [b0, b1, b2, b3, b4, b5, b6, b7]"
  by (simp add: cu_def)

lemma chr_eq_other:
  assumes "\<not> is_ascii_lower a" "\<not> is_ascii_upper a" "cu a < 192"
  shows "chr_eq True a c \<longleftrightarrow> cu c = cu a"
proof -
  have "chr_eq True a c \<longleftrightarrow> cu (canonicalize a) = cu (canonicalize c)"
    by (simp add: chr_eq_def cu_inj)
  also have "\<dots> \<longleftrightarrow> cu c = cu a"
    using assms cu_less[of a] cu_less[of c]
    by (auto simp: cu_canonicalize is_ascii_lower_def is_ascii_upper_def)
  finally show ?thesis .
qed

lemma field_chr_codes:
  "is_field_chr c \<longleftrightarrow>
     (97 \<le> cu c \<and> cu c \<le> 122) \<or> (65 \<le> cu c \<and> cu c \<le> 90) \<or> (48 \<le> cu c \<and> cu c \<le> 57) \<or>
     cu c = 95 \<or> cu c = 46"
proof -
  have u: "c = CHR ''_'' \<longleftrightarrow> cu c = 95" and d: "c = CHR ''.'' \<longleftrightarrow> cu c = 46"
    using cu_inj[of c "CHR ''_''"] cu_inj[of c "CHR ''.''"] by (simp_all add: cu_def)
  show ?thesis
    by (simp add: is_field_chr_def u d is_ascii_lower_def is_ascii_upper_def is_digit_def)
qed

lemma in_class_letters:
  "in_class True ''abcdefghijklmnopqrstuvwxyz'' c \<longleftrightarrow>
     (97 \<le> cu c \<and> cu c \<le> 122) \<or> (65 \<le> cu c \<and> cu c \<le> 90)"
proof -
  have low: "\<forall>a \<in> set ''abcdefghijklmnopqrstuvwxyz''. is_ascii_lower a"
    by (simp add: is_ascii_lower_def cu_def)
  then have "\<And>a. a \<in> set ''abcdefghijklmnopqrstuvwxyz'' \<Longrightarrow>
      chr_eq True a c = (cu c = cu a \<or> cu c + 32 = cu a)"
    using chr_eq_lower by blast
  then have "in_class True ''abcdefghijklmnopqrstuvwxyz'' c \<longleftrightarrow>
      (\<exists>a \<in> set ''abcdefghijklmnopqrstuvwxyz''. cu c = cu a \<or> cu c + 32 = cu a)"
    unfolding in_class_def by (rule bex_cong[OF refl])
  also have "\<dots> \<longleftrightarrow> (97 \<le> cu c \<and> cu c \<le> 122) \<or> (65 \<le> cu c \<and> cu c \<le> 90)"
    by (simp add: cu_Char) arith
  finally show ?thesis .
qed

lemma in_class_others:
  "in_class True ''0123456789_.'' c \<longleftrightarrow> (48 \<le> cu c \<and> cu c \<le> 57) \<or> cu c = 95 \<or> cu c = 46"
proof -
  have "\<forall>a \<in> set ''0123456789_.''. \<not> is_ascii_lower a \<and> \<not> is_ascii_upper a \<and> cu a < 192"
    by (simp add: is_ascii_lower_def is_ascii_upper_def cu_def)
  then have "\<And>a. a \<in> set ''0123456789_.'' \<Longrightarrow> chr_eq True a c = (cu c = cu a)"
    using chr_eq_other by blast
  then have "in_class True ''0123456789_.'' c \<longleftrightarrow> (\<exists>a \<in> set ''0123456789_.''. cu c = cu a)"
    unfolding in_class_def by (rule bex_cong[OF refl])
  also have "\<dots> \<longleftrightarrow> (48 \<le> cu c \<and> cu c \<le> 57) \<or> cu c = 95 \<or> cu c = 46"
    by (simp add: cu_Char) arith
  finally show ?thesis .
qed

lemma in_class_append:
  "in_class ic (xs @ ys) c \<longleftrightarrow> in_class ic xs c \<or> in_class ic ys c"
  by (auto simp: in_class_def)

lemma in_class_field_chars: "in_class True field_chars c \<longleftrightarrow> is_field_chr c"
proof -
  have fc: "field_chars = ''abcdefghijklmnopqrstuvwxyz'' @ ''0123456789_.''"
    by (simp add: field_chars_def)
  show ?thesis
    unfolding fc in_class_append in_class_letters in_class_others field_chr_codes
    by blast
qed

lemma keep_field_chars: "keep_class True field_chars s = filter is_field_chr s"
  by (simp add: keep_class_def in_class_field_chars cong: filter_cong)


lemma cu_toLowerCase_chr:
  "cu (toLowerCase_chr c) =
     (if is_ascii_upper c \<or> (192 \<le> cu c \<and> cu c \<le> 222 \<and> cu c \<noteq> 215) then cu c + 32 else cu c)"
  using cu_less[of c] by (auto simp add: toLowerCase_chr_def cu_char_of is_ascii_upper_def)

lemma toLowerCase_no_upper: "c \<in> set (toLowerCase k) \<Longrightarrow> \<not> is_ascii_upper c"
proof -
  have "\<not> is_ascii_upper (toLowerCase_chr x)" for x
    using cu_toLowerCase_chr[of x] by (auto simp: is_ascii_upper_def)
  then show "c \<in> set (toLowerCase k) \<Longrightarrow> \<not> is_ascii_upper c"
    by (auto simp: toLowerCase_def)
qed

text \<open>Of the members of \<^verbatim>\<open>Object.prototype\<close>, a lower-cased name can only hit the two
  that are written without a capital letter.\<close>

lemma inherited_lower:
  "map_of Object_prototype (toLowerCase k) =
     (if toLowerCase k = ''constructor'' then Some (Fn ''Object'')
      else if toLowerCase k = ''__proto__'' then Some ObjectPrototype
      else None)"
proof -
  have no: "toLowerCase k \<noteq> n" if "\<exists>c \<in> set n. is_ascii_upper c" for n
    using that toLowerCase_no_upper[of _ k] by auto
  have "toLowerCase k \<noteq> ''__defineGetter__''" "toLowerCase k \<noteq> ''__defineSetter__''"
    "toLowerCase k \<noteq> ''hasOwnProperty''" "toLowerCase k \<noteq> ''__lookupGetter__''"
    "toLowerCase k \<noteq> ''__lookupSetter__''" "toLowerCase k \<noteq> ''isPrototypeOf''"
    "toLowerCase k \<noteq> ''propertyIsEnumerable''" "toLowerCase k \<noteq> ''toString''"
    "toLowerCase k \<noteq> ''valueOf''" "toLowerCase k \<noteq> ''toLocaleString''"
    by (rule no, simp add: is_ascii_upper_def cu_Char)+
  then show ?thesis
    by (simp add: Object_prototype_def)
qed

text \<open>The alias lookup is a lookup in the table, with passthrough, for every name but
  \<^verbatim>\<open>constructor\<close> and \<^verbatim>\<open>__proto__\<close> (in any letter case).\<close>

lemma resolve_passthrough:
  assumes "toLowerCase k \<noteq> ''constructor''" "toLowerCase k \<noteq> ''__proto__''"
  shows "resolve FIELD_ALIASES k =
           Path (case map_of FIELD_ALIASES (toLowerCase k) of Some p \<Rightarrow> p | None \<Rightarrow> k)"
proof (cases "map_of FIELD_ALIASES (toLowerCase k)")
  case None
  with assms show ?thesis
    by (simp add: resolve_def alias_get_def inherited_lower)
next
  case (Some p)
  then have "(toLowerCase k, p) \<in> set FIELD_ALIASES"
    by (rule map_of_SomeD)
  then have "p \<noteq> []"
    by (auto simp: FIELD_ALIASES_def)
  with Some show ?thesis
    by (simp add: resolve_def alias_get_def)
qed

lemma resolve_inherited:
  "toLowerCase k = ''constructor'' \<Longrightarrow> resolve FIELD_ALIASES k = Builtin (Fn ''Object'')"
  "toLowerCase k = ''__proto__'' \<Longrightarrow> resolve FIELD_ALIASES k = Builtin ObjectPrototype"
  using inherited_lower[of k]
  by (simp_all add: resolve_def alias_get_def FIELD_ALIASES_def)

subsection \<open>The capture of \<^verbatim>\<open>list unique\<close>\<close>

lemma search_Bol_result:
  "rx_search ic (Seq Bol r) None s = Some (pre, st) \<Longrightarrow>
     rx_match ic r (None, s, Map.empty) Some = Some st"
  by (cases s) (auto simp: search_Bol_later split: option.splits)

lemma lit_from:
  assumes "rx_match ic (Lit w) (p, s, caps) k = Some y"
  shows "\<exists>u s'. s = u @ s' \<and> list_all2 (chr_eq ic) w u \<and>
       k (if u = [] then p else Some (last u), s', caps) = Some y"
proof -
  from assms obtain p' s' where l: "lit_match ic w p s = Some (p', s')"
    and k: "k (p', s', caps) = Some y"
    by (auto split: option.splits)
  from l obtain u where "s = u @ s'" "list_all2 (chr_eq ic) w u"
      "p' = (if u = [] then p else Some (last u))"
    unfolding lit_match_iff by blast
  with k show ?thesis by blast
qed

lemma word_from:
  assumes "rx_match True (Lit (a # w)) (p, s, caps) k = Some y"
  shows "\<exists>u s'. s = u @ s' \<and> same_word (a # w) u \<and> k (Some (last u), s', caps) = Some y"
proof -
  from lit_from[OF assms] obtain u s' where
    h: "s = u @ s'" "list_all2 (chr_eq True) (a # w) u"
      "k (if u = [] then p else Some (last u), s', caps) = Some y"
    by blast
  from h(2) have "u \<noteq> []" by auto
  with h show ?thesis
    unfolding same_word_def by auto
qed

lemma atom_ok_eta: "atom_ok Space = is_space" "atom_ok Dot = is_dot"
  by (rule ext, simp)+

lemma filter_dropWhile:
  assumes "\<And>c. Q c \<Longrightarrow> \<not> P c"
  shows "filter P (dropWhile Q s) = filter P s"
  using assms by (induction s) auto

lemma filter_trim:
  assumes "\<And>c. is_space c \<Longrightarrow> \<not> P c"
  shows "filter P (trim s) = filter P s"
proof -
  have "filter P (trim s) = rev (filter P (dropWhile is_space (rev (dropWhile is_space s))))"
    by (simp add: trim_def rev_filter)
  also have "\<dots> = rev (filter P (rev (dropWhile is_space s)))"
    using assms by (simp add: filter_dropWhile)
  also have "\<dots> = filter P (dropWhile is_space s)"
    by (simp add: rev_filter)
  also have "\<dots> = filter P s"
    using assms by (simp add: filter_dropWhile)
  finally show ?thesis .
qed

lemma space_not_field_chr: "is_space c \<Longrightarrow> \<not> is_field_chr c"
  by (auto simp: field_chr_codes is_space_def)

lemma list_unique_capture:
  assumes "js_match True re_list_unique q = Some m"
  shows "\<exists>a b c d x. q = a @ b @ c @ d @ x \<and> same_word ''list'' a \<and> blanks b \<and>
           same_word ''unique'' c \<and> blanks d \<and> x \<noteq> [] \<and> m 1 = Some x"
proof -
  define k5 where "k5 = (\<lambda>st :: mstate. rx_match True Eol st (Some :: mstate \<Rightarrow> mstate option))"
  define k4 where "k4 = (\<lambda>st. rx_match True (Group 1 (Plus Dot)) st k5)"
  define k3 where "k3 = (\<lambda>st. rx_match True (Plus Space) st k4)"
  define k2 where "k2 = (\<lambda>st. rx_match True (Lit ''unique'') st k3)"
  define k1 where "k1 = (\<lambda>st. rx_match True (Plus Space) st k2)"
  from assms obtain pre p s where "rx_search True re_list_unique None q = Some (pre, p, s, m)"
    by (auto simp: js_match_def split: option.splits)
  then have "rx_match True
      (seqs [Lit ''list'', Plus Space, Lit ''unique'', Plus Space, Group 1 (Plus Dot), Eol])
      (None, q, Map.empty) Some = Some (p, s, m)"
    unfolding re_list_unique_def seqs.simps by (rule search_Bol_result)
  then have 0: "rx_match True (Lit ''list'') (None, q, Map.empty) k1 = Some (p, s, m)"
    unfolding k1_def k2_def k3_def k4_def k5_def seqs.simps rx_match.simps(2) .
  from word_from[OF 0] obtain a s1 where
    1: "q = a @ s1" "same_word ''list'' a" "k1 (Some (last a), s1, Map.empty) = Some (p, s, m)"
    by blast
  from 1(3) have "plus_greedy is_space s1 (\<lambda>c s'. k2 (Some c, s', Map.empty)) = Some (p, s, m)"
    unfolding k1_def rx_match.simps(5) atom_ok_eta .
  from plus_greedy_from[OF this] obtain u1 c1 s2 where
    2: "s1 = u1 @ c1 # s2" "\<forall>x \<in> set u1. is_space x" "is_space c1"
      "k2 (Some c1, s2, Map.empty) = Some (p, s, m)"
    by blast
  from 2(4) have "rx_match True (Lit ''unique'') (Some c1, s2, Map.empty) k3 = Some (p, s, m)"
    unfolding k2_def .
  from word_from[OF this] obtain c s3 where
    3: "s2 = c @ s3" "same_word ''unique'' c" "k3 (Some (last c), s3, Map.empty) = Some (p, s, m)"
    by blast
  from 3(3) have "plus_greedy is_space s3 (\<lambda>c s'. k4 (Some c, s', Map.empty)) = Some (p, s, m)"
    unfolding k3_def rx_match.simps(5) atom_ok_eta .
  from plus_greedy_from[OF this] obtain u2 c2 s4 where
    4: "s3 = u2 @ c2 # s4" "\<forall>x \<in> set u2. is_space x" "is_space c2"
      "k4 (Some c2, s4, Map.empty) = Some (p, s, m)"
    by blast
  from 4(4) have "plus_greedy is_dot s4
      (\<lambda>c s'. k5 (Some c, s', [1 \<mapsto> take (length s4 - length s') s4])) = Some (p, s, m)"
    unfolding k4_def rx_match.simps(5,8) atom_ok_eta by simp
  from plus_greedy_from[OF this] obtain u3 c3 s5 where
    5: "s4 = u3 @ c3 # s5"
      "k5 (Some c3, s5, [1 \<mapsto> take (length s4 - length s5) s4]) = Some (p, s, m)"
    by blast
  from 5(2) have "s5 = []" "m = [1 \<mapsto> take (length s4 - length s5) s4]"
    unfolding k5_def by (auto split: if_splits)
  with 5(1) have m: "m 1 = Some s4" "s4 \<noteq> []"
    by auto
  have b: "blanks (u1 @ [c1])" "blanks (u2 @ [c2])"
    using 2(2,3) 4(2,3) by (auto simp: blanks_def)
  have "q = a @ (u1 @ [c1]) @ c @ (u2 @ [c2]) @ s4"
    using 1(1) 2(1) 3(1) 4(1) by simp
  with 1(2) 3(2) b m show ?thesis
    by blast
qed

text \<open>The field of a \<^verbatim>\<open>list unique\<close> question is the alias-resolved text after
  \<^verbatim>\<open>unique\<close>, without the characters outside \<^verbatim>\<open>[a-zA-Z0-9_.]\<close>.\<close>

lemma list_unique_field:
  assumes "js_match True re_list_unique q = Some m"
  shows "\<exists>a b c rest x. q = a @ b @ c @ rest \<and> same_word ''list'' a \<and> blanks b \<and>
           same_word ''unique'' c \<and> m 1 = Some x \<and>
           unique_field A x = resolve A (filter is_field_chr rest)"
proof -
  from list_unique_capture[OF assms] obtain a b c d x where
    h: "q = a @ b @ c @ d @ x" "same_word ''list'' a" "blanks b" "same_word ''unique'' c"
      "blanks d" "m 1 = Some x"
    by blast
  from h(5) have "filter is_field_chr d = []"
    by (auto simp: blanks_def filter_empty_conv space_not_field_chr)
  then have "unique_field A x = resolve A (filter is_field_chr (d @ x))"
    by (simp add: unique_field_def keep_field_chars filter_trim space_not_field_chr)
  with h show ?thesis
    by blast
qed

section \<open>The context template and the rows\<close>

lemma to_string_scalar: "scalar v \<Longrightarrow> \<exists>t. to_string v = Inr t"
  by (cases v) (simp_all add: scalar_def)

lemma texts_total: "(\<forall>t \<in> set ts. \<exists>x. t = Inr x) \<Longrightarrow> \<exists>r. texts ts = Inr r"
proof (induction ts)
  case Nil
  then show ?case by simp
next
  case (Cons t ts)
  then obtain x r where "t = Inr x" "texts ts = Inr r" by auto
  then show ?case by simp
qed

lemma nested_scalar:
  assumes "log_record d" "p \<in> {''State'', ''Model'', ''Ward''}"
  shows "scalar (get_opt prim (obj_get d ''LogData'') p)"
  using assms
  by (cases "obj_get d ''LogData''") (auto simp: log_record_def get_opt_def scalar_def)

lemma format_doc_total:
  assumes "log_record d"
  shows "\<exists>t. format_doc prim i d = Inr t"
proof -
  have "\<exists>t. to_string (obj_get d ''DeviceId'') = Inr t" "\<exists>t. to_string (obj_get d ''LogSummary'') = Inr t"
    "\<exists>t. to_string (obj_get d ''Timestamp'') = Inr t"
    using assms by (auto simp: log_record_def intro: to_string_scalar)
  moreover have "\<exists>t. to_string (get_opt prim (obj_get d ''LogData'') ''State'') = Inr t"
    "\<exists>t. to_string (get_opt prim (obj_get d ''LogData'') ''Model'') = Inr t"
    "\<exists>t. to_string (get_opt prim (obj_get d ''LogData'') ''Ward'') = Inr t"
    using nested_scalar[OF assms] by (auto intro: to_string_scalar)
  ultimately show ?thesis
    unfolding format_doc_def by (intro texts_total) auto
qed

lemma map_index_total:
  assumes "\<And>i x. x \<in> set xs \<Longrightarrow> \<exists>y. f i x = Inr y"
  shows "\<exists>ys. map_index f n xs = Inr ys \<and> length ys = length xs"
  using assms
proof (induction xs arbitrary: n)
  case Nil
  then show ?case by simp
next
  case (Cons x xs)
  from Cons.prems obtain y where y: "f n x = Inr y" by fastforce
  from Cons.IH[of "Suc n"] Cons.prems obtain ys where
    "map_index f (Suc n) xs = Inr ys" "length ys = length xs"
    by auto
  with y show ?case by simp
qed

lemma map_index_nth:
  "map_index f n xs = Inr ys \<Longrightarrow> j < length xs \<Longrightarrow> f (n + j) (xs ! j) = Inr (ys ! j)"
proof (induction xs arbitrary: n ys j)
  case Nil
  then show ?case by simp
next
  case (Cons x xs)
  from Cons.prems(1) obtain y ys' where
    h: "f n x = Inr y" "map_index f (Suc n) xs = Inr ys'" "ys = y # ys'"
    by (auto split: sum.splits)
  show ?case
  proof (cases j)
    case 0
    with h show ?thesis by simp
  next
    case (Suc j')
    with Cons.prems(2) have "j' < length xs" by simp
    from Cons.IH[OF h(2) this] Suc h(3) show ?thesis by simp
  qed
qed

text \<open>The context template never raises on a list of log records, whether the nested
  object is there or not.\<close>

lemma formatContext_total:
  assumes "\<forall>d \<in> set docs. log_record d"
  shows "\<exists>context. formatContext prim docs = Inr context"
proof -
  from assms have "\<exists>blocks. map_index (format_doc prim) 0 docs = Inr blocks \<and>
      length blocks = length docs"
    by (intro map_index_total format_doc_total) auto
  then show ?thesis
    by (auto simp: formatContext_def)
qed

lemma formatContext_absent_nested:
  "formatContext prim [[(''DeviceId'', Str ''ABC123''), (''LogSummary'', Str ''Boot'')]] =
     Inr (''# Log 1'' @ nl @ ''DeviceId: ABC123'' @ nl @ ''Summary: Boot'' @ nl @
          ''State: undefined'' @ nl @ ''Model: undefined'' @ nl @ ''Ward: undefined'' @ nl @
          ''Timestamp: undefined'')"
  by code_simp

text \<open>For fields that are strings, the flattening never raises and every row has one
  cell for each field.\<close>

lemma flatten_rows_total:
  assumes "\<forall>f \<in> set fs. \<exists>path. f = Path path"
  shows "\<exists>rows. flatten_rows prim fs results = Inr rows \<and> length rows = length results \<and>
           (\<forall>row \<in> set rows. length row = length fs)"
proof -
  have row: "\<exists>cells. flatten_row prim fs res = Inr cells \<and> length cells = length fs" for res
    unfolding flatten_row_def using assms by (intro map_index_total) auto
  then have "\<exists>rows. flatten_rows prim fs results = Inr rows \<and> length rows = length results"
    unfolding flatten_rows_def by (intro map_index_total) auto
  then obtain rows where rows: "flatten_rows prim fs results = Inr rows"
      "length rows = length results"
    by blast
  have "length r = length fs" if "r \<in> set rows" for r
  proof -
    from that obtain j where j: "j < length rows" "r = rows ! j"
      by (auto simp: in_set_conv_nth)
    with rows have "flatten_row prim fs (results ! j) = Inr r"
      using map_index_nth[of "\<lambda>i res. flatten_row prim fs res" 0 results rows j]
      by (simp add: flatten_rows_def)
    with row[of "results ! j"] show ?thesis by simp
  qed
  with rows show ?thesis by blast
qed

lemma split_chr_go_append:
  "d \<notin> set a \<Longrightarrow> split_chr_go d acc (a @ d # rest) = (rev acc @ a) # split_chr_go d [] rest"
  by (induction a arbitrary: acc) auto

lemma split_chr_append:
  "d \<notin> set a \<Longrightarrow> split_chr d (a @ d # rest) = a # split_chr d rest"
  by (simp add: split_chr_def split_chr_go_append)

lemma falsy_stays:
  "\<not> truthy v \<Longrightarrow> foldl (\<lambda>val p. if truthy val then get_prop prim val p else val) v ps = v"
  by (induction ps) auto

lemma nullish_falsy: "nullish v \<Longrightarrow> \<not> truthy v"
  by (cases v) simp_all

text \<open>A path under an absent (or null) member gives the empty string, at the first
  level and at the second.\<close>

lemma cell_absent_nested:
  assumes "nullish (obj_get res a)" "CHR ''.'' \<notin> set a"
  shows "cell prim res (Path (a @ ''.'' @ rest)) = Inr (Str [])"
  using assms
  by (simp add: split_chr_append falsy_stays nullish_falsy or_empty_def)

lemma cell_absent_nested2:
  assumes "obj_get res a = Obj inner" "nullish (obj_get inner b)"
    "CHR ''.'' \<notin> set a" "CHR ''.'' \<notin> set b"
  shows "cell prim res (Path (a @ ''.'' @ b @ ''.'' @ rest)) = Inr (Str [])"
  using assms
  by (simp add: split_chr_append falsy_stays nullish_falsy or_empty_def)

lemma cell_absent_field:
  "nullish (obj_get res f) \<Longrightarrow> CHR ''.'' \<notin> set f \<Longrightarrow> cell prim res (Path f) = Inr (Str [])"
  by (simp add: or_empty_def)

lemma scenario_A:
  "extractFieldsAndFilters FIELD_ALIASES ''list deviceid and model'' =
     Inr \<lparr>the_fields = [Path ''DeviceId'', Path ''LogData.Model''], the_filters = []\<rparr>"
  by code_simp

lemma classify_any_line:
  "classify q =
     (if matches_show_logs (trim q) then ShowAllLogs
      else if matches_list_unique q then ListUniqueField
      else if leading_verb (trim q) then StructuredList
      else SemanticFallback)"
  unfolding classify_def isShowLogsQuery_def
  by (simp only: test_show_logs match_list_unique test_verb)

section \<open>Branches of a turn\<close>

lemma try_block_fallback:
  "classify question = SemanticFallback \<Longrightarrow> try_block W A question = fallback_turn W question"
  by (auto simp: classify_def try_block_def split: if_splits option.splits)

lemma show_logs_first:
  assumes "matches_show_logs s"
  shows "\<exists>c cs. s = c # cs \<and> cu (toLowerCase_chr c) = 115"
proof -
  from assms obtain a r where s: "s = a @ r" and a: "same_word ''show'' a"
    unfolding matches_show_logs_def by (elim exE conjE)
  from a obtain c a' where a': "a = c # a'" and c: "chr_eq True (CHR ''s'') c"
    by (auto simp: same_word_def list_all2_Cons1)
  from c have "cu c = 115 \<or> cu c + 32 = 115"
    by (simp add: chr_eq_lower lower_letters) (simp add: cu_def)
  then have "cu (toLowerCase_chr c) = 115"
    by (auto simp: cu_toLowerCase_chr is_ascii_upper_def)
  with s a' show ?thesis by simp
qed

lemma show_logs_not_exit:
  assumes "isShowLogsQuery question"
  shows "toLowerCase (trim question) \<noteq> ''exit'' \<and> toLowerCase (trim question) \<noteq> ''q''"
proof -
  from assms have "matches_show_logs (trim question)"
    by (simp add: isShowLogsQuery_def test_show_logs)
  then obtain c cs where "trim question = c # cs" "cu (toLowerCase_chr c) = 115"
    using show_logs_first by blast
  then show ?thesis
    by (auto simp: toLowerCase_def cu_def)
qed

lemma print_entries_eq:
  "print_entries i ds =
     map (\<lambda>(j, d). Print (LogEntry (Suc j) (without_embedding d))) (enumerate i ds)"
  by (induction ds arbitrary: i) auto

lemma without_embedding_map_of:
  "map_of (without_embedding d) = (map_of d)(''embedding'' := None)"
proof (induction d)
  case Nil
  then show ?case by (simp add: without_embedding_def)
next
  case (Cons kv d)
  then show ?case
    by (cases kv) (auto simp: without_embedding_def fun_eq_iff)
qed

lemma turn_keeps_aliases: "turn W A q = Some (es, A') \<Longrightarrow> A' = A"
  by (auto simp: turn_def Let_def split: if_splits)

lemma main_keeps_aliases: "snd (main A turns) = A"
proof (induction turns arbitrary: A)
  case Nil
  then show ?case by simp
next
  case (Cons t turns)
  obtain W q where t: "t = (W, q)" by (cases t)
  show ?case
  proof (cases "turn W A q")
    case None
    with t show ?thesis by simp
  next
    case (Some r)
    obtain es A' where r: "r = (es, A')" by (cases r)
    with Some have "A' = A" by (simp add: turn_keeps_aliases)
    with Some r t Cons.IH[of A] show ?thesis
      by (cases "main A turns") auto
  qed
qed

lemma nullish_iff: "nullish v \<longleftrightarrow> v = Undefined \<or> v = Null"
  by (cases v) simp_all

lemma formatContext_Nil: "formatContext p [] = Inr []"
  by (simp add: formatContext_def)

text \<open>A request that raises ends the turn with the error, before anything else is sent.\<close>

lemma embedding_failure_aborts:
  assumes "classify q = SemanticFallback"
    and "toLowerCase (trim q) \<noteq> ''exit''" and "toLowerCase (trim q) \<noteq> ''q''"
    and "post_embeddings W q = Inl e"
  shows "turn W A q = Some ([PostEmbeddings q, PrintError e], A)"
  using assms
  by (simp add: turn_def Let_def try_block_fallback fallback_turn_def generateEmbedding_def
      comp_defs and_then_Inl catch_def)

text \<open>A body without the vector does not: the similarity search is sent, whatever the
  world, with an undefined query vector.\<close>

lemma missing_vector_search_sent:
  assumes "classify q = SemanticFallback"
    and "toLowerCase (trim q) \<noteq> ''exit''" and "toLowerCase (trim q) \<noteq> ''q''"
    and "post_embeddings W q = Inr (Obj body)" and "map_of body ''embedding'' = None"
  shows "\<exists>rest. turn W A q =
           Some (PostEmbeddings q #
                 MongoAggregate \<lparr>vs_index = ''vector_index'', vs_path = ''embedding'',
                                 vs_queryVector = Undefined, vs_numCandidates = 100,
                                 vs_similarity = ''cosine'', vs_limit = 15, vs_filter = None\<rparr> #
                 rest, A)"
proof -
  have u: "obj_get body ''embedding'' = Undefined"
    using assms(5) by (simp add: obj_get_def Object_prototype_def)
  let ?stage = "\<lparr>vs_index = ''vector_index'', vs_path = ''embedding'',
                  vs_queryVector = Undefined, vs_numCandidates = 100,
                  vs_similarity = ''cosine'', vs_limit = 15, vs_filter = None\<rparr>"
  have "\<exists>rest. catch (fallback_turn W q) = PostEmbeddings q # MongoAggregate ?stage # rest"
  proof (cases "db_aggregate W ?stage")
    case (Inl e)
    with assms(4) u show ?thesis
      by (simp add: fallback_turn_def generateEmbedding_def searchSimilarLogs_def comp_defs
          and_then_Inl and_then_Inr get_member_def catch_def)
  next
    case (Inr docs)
    obtain es r where rest: "and_then (pure (formatContext (prim_get W) docs)) (\<lambda>context.
        and_then (askMistral W context q) (\<lambda>answer.
        and_then (pure (to_string answer)) (\<lambda>t. console_log (Answer t)))) = (es, r)"
      by (cases "and_then (pure (formatContext (prim_get W) docs)) (\<lambda>context.
        and_then (askMistral W context q) (\<lambda>answer.
        and_then (pure (to_string answer)) (\<lambda>t. console_log (Answer t))))") 
    with assms(4) u Inr show ?thesis
      by (cases r) (simp_all add: fallback_turn_def generateEmbedding_def searchSimilarLogs_def
          request_def pure_def and_then_Inl and_then_Inr get_member_def catch_def)
  qed
  with assms(1,2,3) show ?thesis
    by (simp add: turn_def Let_def try_block_fallback)
qed

section \<open>Patterns of plain values\<close>













section \<open>The store and the functions of the line\<close>

subsection \<open>The alias lookup\<close>

lemma find_prop_two:
  assumes "a < length s" "s ! a = Object ps (Some 0)" "s ! 0 = Object pp None"
  shows "find_prop (Suc (Suc n)) s a key =
           (case map_of ps key of Some p \<Rightarrow> Some p | None \<Rightarrow> map_of pp key)"
  using assms by (auto split: option.splits)

lemma find_prop_root:
  assumes "0 < length s" "s ! 0 = Object pp None"
  shows "find_prop (Suc n) s 0 key = map_of pp key"
  using assms by (auto split: option.splits)

lemma intact_cells:
  assumes "intact s"
  shows "s ! 0 = Object (map (\<lambda>(name, b). (name, builtin_property b)) Object_prototype) None"
    and "s ! 1 = Object (map (\<lambda>(name, path). (name, Data (HStr path))) FIELD_ALIASES) (Some 0)"
    and "\<exists>n. length s = Suc (Suc n)"
  using assms by (auto simp: intact_def initial_store_def intro: exI[of _ "length s - 2"])

lemma intact_initial: "intact initial_store"
  by (simp add: intact_def initial_store_def)

lemma get_alias:
  assumes "intact s"
  shows "get_h s 1 name =
           (case alias_get FIELD_ALIASES name of
              None \<Rightarrow> HUndefined
            | Some (Path p) \<Rightarrow> HStr p
            | Some (Builtin (Fn n)) \<Rightarrow> HFn n
            | Some (Builtin ObjectPrototype) \<Rightarrow> HRef 0)"
proof -
  from intact_cells[OF assms] obtain n where n: "length s = Suc (Suc n)"
    and c0: "s ! 0 = Object (map (\<lambda>(name, b). (name, builtin_property b)) Object_prototype) None"
    and c1: "s ! 1 = Object (map (\<lambda>(name, path). (name, Data (HStr path))) FIELD_ALIASES) (Some 0)"
    by blast
  have l: "1 < length s"
    using n by simp
  have "find_prop (length s) s 1 name =
      (case map_of FIELD_ALIASES name of
         Some p \<Rightarrow> Some (Data (HStr p))
       | None \<Rightarrow> map_option builtin_property (map_of Object_prototype name))"
    unfolding n find_prop_two[OF l c1 c0]
    by (simp add: map_of_map split: option.splits)
  moreover have "proto_of s 1 = HRef 0"
    using l c1 by (simp add: proto_of_def)
  ultimately show ?thesis
    by (auto simp: get_h_def alias_get_def split: option.splits builtin.splits)
qed

lemma resolve_h_field:
  assumes "intact s"
  shows "field_of (resolve_h s k) = resolve FIELD_ALIASES k"
  unfolding resolve_h_def get_alias[OF assms]
  by (auto simp: resolve_def Let_def split: option.splits field.splits builtin.splits)

lemma resolve_h_cases:
  assumes "intact s"
  shows "(\<exists>p. resolve_h s k = HStr p) \<or> (\<exists>n. resolve_h s k = HFn n) \<or> resolve_h s k = HRef 0"
  unfolding resolve_h_def get_alias[OF assms]
  by (auto simp: Let_def split: option.splits field.splits builtin.splits)

lemma key_of_root:
  assumes "intact s"
  shows "key_of s (HRef 0) = Inr ''[object Object]''"
proof -
  from intact_cells[OF assms] obtain n where n: "length s = Suc (Suc n)"
    and c0: "s ! 0 = Object (map (\<lambda>(name, b). (name, builtin_property b)) Object_prototype) None"
    by blast
  have "find_prop (length s) s 0 ''toString'' = Some (Data (HFn ''toString''))"
    unfolding n using c0 n
    by (subst find_prop_root[where pp = "map (\<lambda>(name, b). (name, builtin_property b)) Object_prototype"])
      (simp_all add: Object_prototype_def)
  then show ?thesis
    by (simp add: key_of_def get_h_def)
qed

lemma resolve_h_key:
  assumes "intact s"
  shows "key_of s (resolve_h s k) = Inr (field_text (resolve FIELD_ALIASES k))"
  using resolve_h_cases[OF assms, of k] resolve_h_field[OF assms, of k, symmetric]
    key_of_root[OF assms]
  by (auto simp: key_of_def)

lemma resolve_h_includes:
  assumes "intact s"
  shows "includes_id (resolve_h s k) = is_id_field (resolve FIELD_ALIASES k)"
  using resolve_h_cases[OF assms, of k] resolve_h_field[OF assms, of k, symmetric]
  by auto

lemma lower_proto: "toLowerCase ''__proto__'' = ''__proto__''"
  by code_simp

lemma alias_values_not_proto: "(name, p) \<in> set FIELD_ALIASES \<Longrightarrow> p \<noteq> ''__proto__''"
  by (auto simp: FIELD_ALIASES_def)

lemma resolved_key_not_proto: "field_text (resolve FIELD_ALIASES k) \<noteq> ''__proto__''"
proof (cases "toLowerCase k = ''constructor'' \<or> toLowerCase k = ''__proto__''")
  case True
  then show ?thesis
    using resolve_inherited[of k] by auto
next
  case False
  then have r: "resolve FIELD_ALIASES k =
      Path (case map_of FIELD_ALIASES (toLowerCase k) of Some p \<Rightarrow> p | None \<Rightarrow> k)"
    by (simp add: resolve_passthrough)
  from False have "k \<noteq> ''__proto__''"
    using lower_proto by auto
  then show ?thesis
    unfolding r by (auto split: option.splits dest: map_of_SomeD alias_values_not_proto)
qed

subsection \<open>Writing into a filter object\<close>

lemma inherited_accessor:
  "map_of Object_prototype key = Some ObjectPrototype \<Longrightarrow> key = ''__proto__''"
  by (simp add: Object_prototype_def split: if_splits)

lemma set_h_plain:
  assumes "intact s" "f < length s" "2 \<le> f" "s ! f = Object ps (Some 0)"
    and "\<forall>(k, p) \<in> set ps. \<exists>v. p = Data v" and "key \<noteq> ''__proto__''"
  shows "set_h f key v s = (Inr (), s[f := Object (put key (Data v) ps) (Some 0)])"
proof -
  from intact_cells[OF assms(1)] obtain n where n: "length s = Suc (Suc n)"
    and c0: "s ! 0 = Object (map (\<lambda>(name, b). (name, builtin_property b)) Object_prototype) None"
    by blast
  have "find_prop (length s) s f key \<noteq> Some ProtoAccessor"
  proof (cases "map_of ps key")
    case None
    then have "find_prop (length s) s f key = map_option builtin_property (map_of Object_prototype key)"
      unfolding n find_prop_two[OF assms(2,4) c0] by (simp add: map_of_map)
    with assms(6) show ?thesis
      using inherited_accessor[of key]
      by (cases "map_of Object_prototype key") (auto elim: builtin_property.elims)
  next
    case (Some p)
    then have "(key, p) \<in> set ps"
      by (rule map_of_SomeD)
    with assms(5) obtain w where "p = Data w"
      by auto
    with Some show ?thesis
      unfolding n find_prop_two[OF assms(2,4) c0] by simp
  qed
  then show ?thesis
    using assms(2,4)
    by (auto simp: set_h_def update_cell_def split: option.splits property.splits)
qed

lemma put_map: "map (\<lambda>(k, x). (k, g x)) (put k v xs) = put k (g v) (map (\<lambda>(k, x). (k, g x)) xs)"
  by (induction xs) auto

lemma set_put: "set (put k v xs) \<subseteq> insert (k, v) (set xs)"
  by (induction xs) (auto split: if_splits)

lemma keys_put: "fst ` set (put k v xs) = insert k (fst ` set xs)"
proof (induction xs)
  case Nil
  then show ?case by simp
next
  case (Cons x xs)
  obtain a b where x: "x = (a, b)"
    by (cases x)
  show ?case
    unfolding x using Cons.IH by (simp add: insert_commute)
qed

lemma distinct_put: "distinct (map fst xs) \<Longrightarrow> distinct (map fst (put k v xs))"
  by (induction xs) (auto simp: keys_put)

lemma entries_put:
  assumes "P k v" and "\<forall>(k', p) \<in> set xs. P k' p"
  shows "\<forall>(k', p) \<in> set (put k v xs). P k' p"
  using assms set_put[of k v xs] by auto

lemma own_update: "own (s[f := c]) a = (if a = f \<and> f < length s then own [c] 0 else own s a)"
  by (auto simp: own_def)

lemma own_append: "a < length s \<Longrightarrow> own (s @ [c]) a = own s a"
  by (simp add: own_def nth_append)

lemma read_value_stable:
  assumes "\<And>a. p = Data (HRef a) \<Longrightarrow> own s' a = own s a"
  shows "read_value s' p = read_value s p"
  using assms by (auto simp: read_value_def split: property.splits hval.splits)

lemma intact_frame:
  assumes "intact s" "length s \<le> length s'" "\<forall>a < length s. a \<noteq> f \<longrightarrow> s' ! a = s ! a" "2 \<le> f"
  shows "intact s'"
proof -
  have "2 \<le> length s"
    using assms(1) by (simp add: intact_def)
  then have l: "0 < length s" "1 < length s"
    by linarith+
  have "s' ! 0 = s ! 0"
    using assms(3)[rule_format, of 0] l(1) assms(4) by simp
  moreover have "s' ! 1 = s ! 1"
    using assms(3)[rule_format, of 1] l(2) assms(4) by simp
  ultimately show ?thesis
    using assms(1,2) by (simp add: intact_def)
qed

lemma resolve_h_same:
  assumes "intact s" "intact s'"
  shows "resolve_h s' k = resolve_h s k"
  unfolding resolve_h_def get_alias[OF assms(1)] get_alias[OF assms(2)] ..

lemma filter_value_frame:
  assumes "filter_value s f p" "length s \<le> length s'"
    and "\<forall>a < length s. a \<noteq> f \<longrightarrow> s' ! a = s ! a"
  shows "filter_value s' f p"
  using assms(1) unfolding filter_value_def
proof (elim disjE exE conjE)
  fix x
  assume "p = Data (HStr x)"
  then show "(\<exists>x. p = Data (HStr x)) \<or>
      (\<exists>a r. p = Data (HRef a) \<and> a < length s' \<and> a \<noteq> f \<and> 2 \<le> a \<and> s' ! a = pattern_object r)"
    by simp
next
  fix a r
  assume h: "p = Data (HRef a)" "a < length s" "a \<noteq> f" "2 \<le> a" "s ! a = pattern_object r"
  with assms(2,3) have "a < length s'" "s' ! a = pattern_object r"
    by simp_all
  with h show "(\<exists>x. p = Data (HStr x)) \<or>
      (\<exists>a r. p = Data (HRef a) \<and> a < length s' \<and> a \<noteq> f \<and> 2 \<le> a \<and> s' ! a = pattern_object r)"
    by blast
qed

lemma read_value_frame:
  assumes "filter_value s f p" "length s \<le> length s'"
    and "\<forall>a < length s. a \<noteq> f \<longrightarrow> s' ! a = s ! a"
  shows "read_value s' p = read_value s p"
proof (rule read_value_stable)
  fix a
  assume "p = Data (HRef a)"
  with assms(1) have "a < length s" "a \<noteq> f"
    by (auto simp: filter_value_def)
  with assms(2,3) show "own s' a = own s a"
    by (simp add: own_def)
qed

lemma read_filters_frame:
  assumes "s ! f = Object ps (Some 0)" "f < length s"
    and "\<forall>(k, p) \<in> set ps. filter_value s f p" "length s \<le> length s'"
    and "\<forall>a < length s. a \<noteq> f \<longrightarrow> s' ! a = s ! a"
  shows "map (\<lambda>(k, p). (k, read_value s' p)) ps = read_filters s f"
proof -
  have "read_value s' p = read_value s p" if "(k, p) \<in> set ps" for k p
    using that assms(3) by (intro read_value_frame[OF _ assms(4,5)]) auto
  then show ?thesis
    using assms(1,2) by (auto simp: read_filters_def own_def)
qed

text \<open>One entry written into a filter object.\<close>

lemma filter_entry:
  fixes k :: string
  assumes i: "intact s" and fo: "filter_object s f"
  defines "key \<equiv> resolve FIELD_ALIASES k"
  shows "\<exists>s'. (if includes_id (resolve_h s k) then assign f (resolve_h s k) (HStr v) s
               else then_h (alloc (pattern_object r))
                      (\<lambda>pattern. assign f (resolve_h s k) (HRef pattern)) s) = (Inr (), s') \<and>
           filter_object s' f \<and> length s \<le> length s' \<and>
           (\<forall>a < length s. a \<noteq> f \<longrightarrow> s' ! a = s ! a) \<and>
           read_filters s' f =
             put (field_text key) (if is_id_field key then Exact v else Pattern r ''i'')
               (read_filters s f)"
proof -
  from fo obtain ps where f: "f < length s" "2 \<le> f" and c: "s ! f = Object ps (Some 0)"
    and d: "distinct (map fst ps)"
    and ps: "\<forall>(k, p) \<in> set ps. k \<noteq> ''__proto__'' \<and> filter_value s f p"
    by (auto simp: filter_object_def)
  have data: "\<forall>(k, p) \<in> set ps. \<exists>v. p = Data v"
    using ps by (auto simp: filter_value_def)
  have fv: "\<forall>(k, p) \<in> set ps. filter_value s f p"
    using ps by auto
  have np: "field_text key \<noteq> ''__proto__''"
    unfolding key_def by (rule resolved_key_not_proto)
  show ?thesis
  proof (cases "is_id_field key")
    case True
    let ?s' = "s[f := Object (put (field_text key) (Data (HStr v)) ps) (Some 0)]"
    have run: "assign f (resolve_h s k) (HStr v) s = (Inr (), ?s')"
      using set_h_plain[OF i f c data np]
      by (simp add: assign_def resolve_h_key[OF i] key_def)
    have fr: "length s \<le> length ?s'" "\<forall>a < length s. a \<noteq> f \<longrightarrow> ?s' ! a = s ! a"
      by simp_all
    have "\<forall>(k', p) \<in> set (put (field_text key) (Data (HStr v)) ps).
        k' \<noteq> ''__proto__'' \<and> filter_value ?s' f p"
    proof (rule entries_put)
      show "field_text key \<noteq> ''__proto__'' \<and> filter_value ?s' f (Data (HStr v))"
        using np by (simp add: filter_value_def)
      show "\<forall>(k', p) \<in> set ps. k' \<noteq> ''__proto__'' \<and> filter_value ?s' f p"
        using ps filter_value_frame[OF _ fr] by blast
    qed
    then have fo': "filter_object ?s' f"
      unfolding filter_object_def using f distinct_put[OF d] by simp
    have "read_filters ?s' f =
        put (field_text key) (Exact v) (map (\<lambda>(k, p). (k, read_value ?s' p)) ps)"
      using f by (simp add: read_filters_def own_def put_map read_value_def)
    also have "map (\<lambda>(k, p). (k, read_value ?s' p)) ps = read_filters s f"
      by (rule read_filters_frame[OF c f(1) fv fr])
    finally have rd: "read_filters ?s' f = put (field_text key) (Exact v) (read_filters s f)" .
    show ?thesis
      apply (rule exI[of _ ?s'])
      using True run fo' rd fr by (simp add: resolve_h_includes[OF i] key_def)
  next
    case False
    let ?s1 = "s @ [pattern_object r]"
    let ?s' = "?s1[f := Object (put (field_text key) (Data (HRef (length s))) ps) (Some 0)]"
    have i1: "intact ?s1"
      using i by (auto simp: intact_def nth_append)
    have c1: "?s1 ! f = Object ps (Some 0)" "f < length ?s1"
      using f c by (simp_all add: nth_append)
    have k1: "key_of ?s1 (resolve_h s k) = Inr (field_text key)"
      using resolve_h_key[OF i1, of k] resolve_h_same[OF i i1, of k] by (simp add: key_def)
    have run: "then_h (alloc (pattern_object r))
        (\<lambda>pattern. assign f (resolve_h s k) (HRef pattern)) s = (Inr (), ?s')"
      using set_h_plain[OF i1 c1(2) f(2) c1(1) data np]
      by (simp add: then_h_def alloc_def assign_def k1)
    have fr: "length s \<le> length ?s'" "\<forall>a < length s. a \<noteq> f \<longrightarrow> ?s' ! a = s ! a"
      by (simp_all add: nth_append)
    have new: "filter_value ?s' f (Data (HRef (length s)))"
      unfolding filter_value_def using f
      by (intro disjI2 exI[of _ "length s"] exI[of _ r]) (simp add: nth_append)
    have "\<forall>(k', p) \<in> set (put (field_text key) (Data (HRef (length s))) ps).
        k' \<noteq> ''__proto__'' \<and> filter_value ?s' f p"
    proof (rule entries_put)
      show "field_text key \<noteq> ''__proto__'' \<and> filter_value ?s' f (Data (HRef (length s)))"
        using np new by simp
      show "\<forall>(k', p) \<in> set ps. k' \<noteq> ''__proto__'' \<and> filter_value ?s' f p"
        using ps filter_value_frame[OF _ fr] by blast
    qed
    then have fo': "filter_object ?s' f"
      unfolding filter_object_def using f distinct_put[OF d] by (simp add: nth_append)
    have "read_filters ?s' f =
        put (field_text key) (Pattern r ''i'') (map (\<lambda>(k, p). (k, read_value ?s' p)) ps)"
      using f by (simp add: read_filters_def own_def put_map read_value_def pattern_object_def nth_append)
    also have "map (\<lambda>(k, p). (k, read_value ?s' p)) ps = read_filters s f"
      by (rule read_filters_frame[OF c f(1) fv fr])
    finally have rd: "read_filters ?s' f = put (field_text key) (Pattern r ''i'') (read_filters s f)" .
    show ?thesis
      apply (rule exI[of _ ?s'])
      using False run fo' rd fr by (simp add: resolve_h_includes[OF i] key_def)
  qed
qed

subsection \<open>The iterations of the extractors\<close>

lemma extends_refl: "extends s s"
  by (simp add: extends_def)

lemma extends_trans: "extends s s' \<Longrightarrow> extends s' s'' \<Longrightarrow> extends s s''"
  by (auto simp: extends_def)

lemma extends_append: "extends s (s @ [c])"
  by (simp add: extends_def nth_append)

lemma extends_intact:
  assumes "intact s" "extends s s'"
  shows "intact s'"
proof -
  have "2 \<le> length s"
    using assms(1) by (simp add: intact_def)
  then have "0 < length s" "1 < length s"
    by linarith+
  with assms(2) have "s' ! 0 = s ! 0" "s' ! 1 = s ! 1"
    by (simp_all add: extends_def)
  with assms show ?thesis
    by (simp add: intact_def extends_def)
qed

lemma extends_step:
  assumes "extends s0 s" "length s0 \<le> f" "length s \<le> length s'"
    and "\<forall>a < length s. a \<noteq> f \<longrightarrow> s' ! a = s ! a"
  shows "extends s0 s'"
  using assms by (auto simp: extends_def)

lemma for_each_invariant:
  assumes "Inv s acc"
    and "\<And>x s acc. Inv s acc \<Longrightarrow> \<exists>s'. f x s = (Inr (), s') \<and> Inv s' (g acc x)"
  shows "\<exists>s'. for_each f xs s = (Inr (), s') \<and> Inv s' (foldl g acc xs)"
  using assms(1)
proof (induction xs arbitrary: s acc)
  case Nil
  then show ?case by simp
next
  case (Cons x xs)
  from assms(2)[OF Cons.prems] obtain s1 where "f x s = (Inr (), s1)" "Inv s1 (g acc x)"
    by blast
  with Cons.IH[of s1 "g acc x"] show ?case
    by simp
qed

lemma filtersOnly_cond_h_step:
  assumes "intact s" "filter_object s f"
  shows "\<exists>s'. filtersOnly_cond_h f cond s = (Inr (), s') \<and>
           filter_object s' f \<and> length s \<le> length s' \<and>
           (\<forall>a < length s. a \<noteq> f \<longrightarrow> s' ! a = s ! a) \<and>
           read_filters s' f = filtersOnly_cond FIELD_ALIASES (read_filters s f) cond"
proof (cases "\<exists>k v. cond_pair cond = (Some k, Some v) \<and> k \<noteq> [] \<and> v \<noteq> []")
  case True
  then obtain k v where kv: "cond_pair cond = (Some k, Some v)" "k \<noteq> []" "v \<noteq> []"
    by blast
  from filter_entry[OF assms, of k v "''^'' @ v @ ''$''"] kv show ?thesis
    by (cases "is_id_field (resolve FIELD_ALIASES k)")
      (simp_all add: filtersOnly_cond_h_def filtersOnly_cond_def Let_def
        resolve_h_includes[OF assms(1)])
next
  case False
  then have "filtersOnly_cond_h f cond s = (Inr (), s)"
    "filtersOnly_cond FIELD_ALIASES (read_filters s f) cond = read_filters s f"
    by (auto simp: filtersOnly_cond_h_def filtersOnly_cond_def split: prod.splits option.splits)
  with assms(2) show ?thesis
    by simp
qed

lemma filter_token_h_step:
  assumes "intact s" "filter_object s f"
  shows "\<exists>s'. filter_token_h f token s = (Inr (), s') \<and>
           filter_object s' f \<and> length s \<le> length s' \<and>
           (\<forall>a < length s. a \<noteq> f \<longrightarrow> s' ! a = s ! a) \<and>
           read_filters s' f = filter_token FIELD_ALIASES (read_filters s f) token"
proof (cases "\<exists>k v. token_pair token = (Some k, Some v) \<and> k \<noteq> [] \<and> v \<noteq> []")
  case True
  then obtain k v where kv: "token_pair token = (Some k, Some v)" "k \<noteq> []" "v \<noteq> []"
    by blast
  from filter_entry[OF assms, of k v v] kv show ?thesis
    by (cases "is_id_field (resolve FIELD_ALIASES k)")
      (simp_all add: filter_token_h_def filter_token_def Let_def
        resolve_h_includes[OF assms(1)])
next
  case False
  then have "filter_token_h f token s = (Inr (), s)"
    "filter_token FIELD_ALIASES (read_filters s f) token = read_filters s f"
    by (auto simp: filter_token_h_def filter_token_def split: prod.splits option.splits)
  with assms(2) show ?thesis
    by simp
qed

lemma filling_step:
  assumes "filling b f s flt"
    and "\<exists>s'. step s = (Inr (), s') \<and>
           filter_object s' f \<and> length s \<le> length s' \<and>
           (\<forall>a < length s. a \<noteq> f \<longrightarrow> s' ! a = s ! a) \<and> read_filters s' f = flt'"
  shows "\<exists>s'. step s = (Inr (), s') \<and> filling b f s' flt'"
proof -
  from assms(2) obtain s' where s': "step s = (Inr (), s')" "filter_object s' f"
    "length s \<le> length s'" "\<forall>a < length s. a \<noteq> f \<longrightarrow> s' ! a = s ! a" "read_filters s' f = flt'"
    by blast
  from assms(1) s'(3,4) have "\<forall>a < length b. a \<noteq> f \<longrightarrow> s' ! a = b ! a"
    by (auto simp: filling_def)
  with assms(1) s' show ?thesis
    by (auto simp: filling_def)
qed

lemma filling_intact:
  assumes "filling b f s flt"
  shows "intact s"
proof (rule intact_frame)
  show "intact b" "length b \<le> length s" "\<forall>a < length b. a \<noteq> f \<longrightarrow> s ! a = b ! a"
    using assms by (simp_all add: filling_def)
  show "2 \<le> f"
    using assms by (simp add: filling_def filter_object_def)
qed

lemma filling_start: "intact b \<Longrightarrow> filter_object b f \<Longrightarrow> filling b f b (read_filters b f)"
  by (simp add: filling_def)

lemma empty_filter_object:
  "f < length s \<Longrightarrow> 2 \<le> f \<Longrightarrow> s ! f = Object [] (Some 0) \<Longrightarrow>
     filter_object s f \<and> read_filters s f = []"
  by (simp add: filter_object_def read_filters_def own_def)

lemma filters_loop:
  assumes "filling b f s flt"
  shows "\<exists>s'. for_each (filtersOnly_cond_h f) xs s = (Inr (), s') \<and>
           filling b f s' (foldl (filtersOnly_cond FIELD_ALIASES) flt xs)"
  using assms
proof (rule for_each_invariant[where Inv = "filling b f"])
  fix x s acc
  assume h: "filling b f s acc"
  from filtersOnly_cond_h_step[OF filling_intact[OF h], of f x] h
  have "\<exists>s'. filtersOnly_cond_h f x s = (Inr (), s') \<and>
           filter_object s' f \<and> length s \<le> length s' \<and>
           (\<forall>a < length s. a \<noteq> f \<longrightarrow> s' ! a = s ! a) \<and>
           read_filters s' f = filtersOnly_cond FIELD_ALIASES acc x"
    by (simp add: filling_def)
  then show "\<exists>s'. filtersOnly_cond_h f x s = (Inr (), s') \<and>
      filling b f s' (filtersOnly_cond FIELD_ALIASES acc x)"
    by (rule filling_step[OF h])
qed

lemma tokens_loop:
  assumes "filling b f s flt"
  shows "\<exists>s'. for_each (filter_token_h f) xs s = (Inr (), s') \<and>
           filling b f s' (foldl (filter_token FIELD_ALIASES) flt xs)"
  using assms
proof (rule for_each_invariant[where Inv = "filling b f"])
  fix x s acc
  assume h: "filling b f s acc"
  from filter_token_h_step[OF filling_intact[OF h], of f x] h
  have "\<exists>s'. filter_token_h f x s = (Inr (), s') \<and>
           filter_object s' f \<and> length s \<le> length s' \<and>
           (\<forall>a < length s. a \<noteq> f \<longrightarrow> s' ! a = s ! a) \<and>
           read_filters s' f = filter_token FIELD_ALIASES acc x"
    by (simp add: filling_def)
  then show "\<exists>s'. filter_token_h f x s = (Inr (), s') \<and>
      filling b f s' (filter_token FIELD_ALIASES acc x)"
    by (rule filling_step[OF h])
qed

lemma filling_extends:
  assumes "filling b f s' flt" "extends s b" "length s \<le> f"
  shows "extends s s'"
  using assms by (auto simp: filling_def extends_def)

text \<open>\<^verbatim>\<open>extractFiltersOnly\<close> on the store computes the mapping of the function of the
  line, in a new object, and changes no cell that was there.\<close>

lemma extractFiltersOnly_h_refines:
  assumes "intact s"
  shows "\<exists>r s'. extractFiltersOnly_h q s = (r, s') \<and> extends s s' \<and>
           (case r of
              Inl e \<Rightarrow> extractFiltersOnly FIELD_ALIASES q = Inl e
            | Inr f \<Rightarrow> filter_object s' f \<and>
                extractFiltersOnly FIELD_ALIASES q = Inr (read_filters s' f))"
proof -
  let ?s1 = "s @ [Object [] (Some 0)]"
  have i1: "intact ?s1"
    using assms extends_append by (rule extends_intact)
  have l: "2 \<le> length s"
    using assms by (simp add: intact_def)
  have f0: "filling ?s1 (length s) ?s1 []"
    using filling_start[OF i1, of "length s"] empty_filter_object[of "length s" ?s1] l
    by simp
  show ?thesis
  proof (cases "js_match True re_filter_intro q")
    case None
    with f0 show ?thesis
      by (simp add: extractFiltersOnly_h_def extractFiltersOnly_def then_h_def alloc_def
          return_h_def filling_def extends_append)
  next
    case (Some m)
    show ?thesis
    proof (cases "m 1")
      case None
      with Some show ?thesis
        by (simp add: extractFiltersOnly_h_def extractFiltersOnly_def then_h_def alloc_def
            raise_h_def extends_append)
    next
      case (Some clause)
      from filters_loop[OF f0, of "split_rx False re_and_comma clause"]
      obtain s' where run: "for_each (filtersOnly_cond_h (length s))
            (split_rx False re_and_comma clause) ?s1 = (Inr (), s')"
        and fin: "filling ?s1 (length s) s' (foldl (filtersOnly_cond FIELD_ALIASES) []
           (split_rx False re_and_comma clause))"
        by blast
      have "extends s s'"
        using fin extends_append by (rule filling_extends) simp
      with run fin Some \<open>js_match True re_filter_intro q = Some m\<close> show ?thesis
        by (simp add: extractFiltersOnly_h_def extractFiltersOnly_def then_h_def alloc_def
            return_h_def filling_def)
    qed
  qed
qed

lemma resolve_h_field_value:
  assumes "intact s"
  shows "field_value (resolve_h s k)"
proof -
  have "p \<noteq> ''__proto__''" if "resolve_h s k = HStr p" for p
  proof -
    from that resolve_h_field[OF assms, of k] have "resolve FIELD_ALIASES k = Path p"
      by simp
    with resolved_key_not_proto[of k] show ?thesis
      by simp
  qed
  with resolve_h_cases[OF assms, of k] show ?thesis
    by (auto simp: field_value_def)
qed

lemma collecting_intact:
  assumes "collecting b arr s fs"
  shows "intact s"
proof (rule intact_frame)
  show "intact b" "length b \<le> length s" "\<forall>a < length b. a \<noteq> arr \<longrightarrow> s ! a = b ! a" "2 \<le> arr"
    using assms by (auto simp: collecting_def)
qed

lemma fields_loop:
  assumes "collecting b arr s fs"
  shows "\<exists>s'. for_each (fields_piece_h arr) xs s = (Inr (), s') \<and>
           collecting b arr s' (foldl (fields_piece FIELD_ALIASES) fs xs)"
  using assms
proof (rule for_each_invariant[where Inv = "collecting b arr"])
  fix x s acc
  assume h: "collecting b arr s acc"
  then obtain vs where vs: "s = b[arr := Array vs]" "\<forall>v \<in> set vs. field_value v"
      "map field_of vs = acc" and a: "arr < length b" "2 \<le> arr" "intact b"
    by (auto simp: collecting_def)
  have i: "intact s"
    using h by (rule collecting_intact)
  let ?c = "keep_class True field_chars (trim x)"
  show "\<exists>s'. fields_piece_h arr x s = (Inr (), s') \<and>
      collecting b arr s' (fields_piece FIELD_ALIASES acc x)"
  proof (cases "?c = []")
    case True
    with h show ?thesis
      by (simp add: fields_piece_h_def fields_piece_def)
  next
    case False
    have "push_h arr (resolve_h s ?c) s = (Inr (), b[arr := Array (vs @ [resolve_h s ?c])])"
      using vs(1) a by (simp add: push_h_def)
    moreover have "collecting b arr (b[arr := Array (vs @ [resolve_h s ?c])])
        (acc @ [resolve FIELD_ALIASES ?c])"
      unfolding collecting_def using a vs(2,3) resolve_h_field_value[OF i] resolve_h_field[OF i]
      by (intro conjI exI[of _ "vs @ [resolve_h s ?c]"]) auto
    ultimately show ?thesis
      using False by (simp add: fields_piece_h_def fields_piece_def Let_def)
  qed
qed

text \<open>\<^verbatim>\<open>extractFieldsAndFilters\<close> on the store computes the fields and the mapping of the
  function of the line, in two new objects, and changes no cell that was there.\<close>

lemma extractFieldsAndFilters_h_refines:
  assumes "intact s"
  shows "\<exists>r s'. extractFieldsAndFilters_h q s = (r, s') \<and> extends s s' \<and>
           (case r of
              Inl e \<Rightarrow> extractFieldsAndFilters FIELD_ALIASES q = Inl e
            | Inr (arr, f) \<Rightarrow> fields_array s' arr \<and> filter_object s' f \<and>
                extractFieldsAndFilters FIELD_ALIASES q =
                  Inr \<lparr>the_fields = read_fields s' arr, the_filters = read_filters s' f\<rparr>)"
proof -
  let ?b = "s @ [Array [], Object [] (Some 0)]"
  let ?arr = "length s"
  let ?f = "Suc (length s)"
  have l: "2 \<le> length s"
    using assms by (simp add: intact_def)
  have eb: "extends s ?b"
    by (simp add: extends_def nth_append)
  have ib: "intact ?b"
    using assms eb by (rule extends_intact)
  have run0: "extractFieldsAndFilters_h q s =
      (case js_match True re_structured q of
         None \<Rightarrow> return_h (?arr, ?f)
       | Some m \<Rightarrow>
           (case m 1 of
              None \<Rightarrow> raise_h (cannot_read ''undefined'' ''split'')
            | Some rawFields \<Rightarrow>
                then_h (for_each (fields_piece_h ?arr) (split_rx False re_comma_and rawFields))
                  (\<lambda>u. case m 2 of
                     None \<Rightarrow> return_h (?arr, ?f)
                   | Some rawFilter \<Rightarrow>
                       if rawFilter \<noteq> [] then
                         then_h (for_each (filter_token_h ?f)
                                   (split_rx False re_and_comma rawFilter))
                           (\<lambda>u. return_h (?arr, ?f))
                       else return_h (?arr, ?f)))) ?b"
    by (simp add: extractFieldsAndFilters_h_def then_h_def alloc_def
        cong: option.case_cong if_cong)
  have c0: "collecting ?b ?arr ?b []"
    unfolding collecting_def using ib
    by (intro conjI exI[of _ "[]"]) (simp_all add: l list_eq_iff_nth_eq nth_append nth_list_update)
  have finish: "fields_array s' ?arr \<and> filter_object s' ?f \<and> extends s s' \<and>
      read_fields s' ?arr = fs \<and> read_filters s' ?f = flt"
    if "collecting ?b ?arr s1 fs" "filling s1 ?f s' flt" for s1 s' fs flt
  proof -
    from that(1) obtain vs where vs: "s1 = ?b[?arr := Array vs]" "\<forall>v \<in> set vs. field_value v"
        "map field_of vs = fs"
      by (auto simp: collecting_def)
    from that(2) have fr: "length s1 \<le> length s'" "\<forall>a < length s1. a \<noteq> ?f \<longrightarrow> s' ! a = s1 ! a"
      and fo: "filter_object s' ?f" "read_filters s' ?f = flt"
      by (simp_all add: filling_def)
    have arr: "s' ! ?arr = Array vs"
      using fr vs(1) by (simp add: nth_append)
    have "extends s s'"
      unfolding extends_def using fr vs(1) by (auto simp: nth_append)
    with arr fr vs fo l show ?thesis
      by (simp add: fields_array_def read_fields_def elements_def)
  qed
  have start2: "filling s1 ?f s1 []" if "collecting ?b ?arr s1 fs" for s1 fs
  proof -
    from that obtain vs where vs: "s1 = ?b[?arr := Array vs]"
      by (auto simp: collecting_def)
    have "filter_object s1 ?f \<and> read_filters s1 ?f = []"
      using vs l by (intro empty_filter_object) (simp_all add: nth_append)
    with filling_start[OF collecting_intact[OF that], of ?f] show ?thesis
      by simp
  qed
  show ?thesis
  proof (cases "js_match True re_structured q")
    case None
    with finish[OF c0 start2[OF c0]] show ?thesis
      by (simp add: run0 extractFieldsAndFilters_def return_h_def)
  next
    case (Some m)
    note m = this
    show ?thesis
    proof (cases "m 1")
      case None
      with m eb show ?thesis
        by (simp add: run0 extractFieldsAndFilters_def raise_h_def)
    next
      case (Some rawFields)
      note m1 = this
      from fields_loop[OF c0, of "split_rx False re_comma_and rawFields"]
      obtain s1 where run1: "for_each (fields_piece_h ?arr)
            (split_rx False re_comma_and rawFields) ?b = (Inr (), s1)"
        and c1: "collecting ?b ?arr s1 (foldl (fields_piece FIELD_ALIASES) []
            (split_rx False re_comma_and rawFields))"
        by blast
      show ?thesis
      proof (cases "\<exists>rawFilter. m 2 = Some rawFilter \<and> rawFilter \<noteq> []")
        case False
        with finish[OF c1 start2[OF c1]] m m1 run1 show ?thesis
          by (auto simp: run0 extractFieldsAndFilters_def return_h_def then_h_def Let_def
              split: option.splits)
      next
        case True
        then obtain rawFilter where m2: "m 2 = Some rawFilter" "rawFilter \<noteq> []"
          by blast
        from tokens_loop[OF start2[OF c1], of "split_rx False re_and_comma rawFilter"]
        obtain s' where run2: "for_each (filter_token_h ?f)
              (split_rx False re_and_comma rawFilter) s1 = (Inr (), s')"
          and f2: "filling s1 ?f s' (foldl (filter_token FIELD_ALIASES) []
              (split_rx False re_and_comma rawFilter))"
          by blast
        from finish[OF c1 f2] m m1 m2 run1 run2 show ?thesis
          by (simp add: run0 extractFieldsAndFilters_def return_h_def then_h_def Let_def)
      qed
    qed
  qed
qed

subsection \<open>The objects of \<^verbatim>\<open>queryMongo\<close>\<close>

lemma field_value_key:
  assumes "intact s" "field_value v"
  shows "key_of s v = Inr (field_text (field_of v))" "field_text (field_of v) \<noteq> ''__proto__''"
  using assms(2) key_of_root[OF assms(1)]
  by (auto simp: field_value_def key_of_def)

lemma intact_update:
  assumes "intact b" "2 \<le> t"
  shows "intact (b[t := c])"
  using assms(1)
proof (rule intact_frame)
  show "length b \<le> length (b[t := c])" "\<forall>a < length b. a \<noteq> t \<longrightarrow> b[t := c] ! a = b ! a" "2 \<le> t"
    using assms(2) by simp_all
qed

text \<open>The loop that fills the projection.\<close>

lemma projection_loop:
  assumes "intact b" "t < length b" "2 \<le> t" "\<forall>v \<in> set vs. field_value v"
  shows "for_each (\<lambda>f. assign t f (HNum 1)) vs
           (b[t := Object (map (\<lambda>(k, n). (k, Data (HNum n))) proj) (Some 0)]) =
         (Inr (), b[t := Object (map (\<lambda>(k, n). (k, Data (HNum n)))
                       (foldl (\<lambda>proj f. put (field_text f) (1::nat) proj) proj (map field_of vs)))
                     (Some 0)])"
  using assms(4)
proof (induction vs arbitrary: proj)
  case Nil
  then show ?case by simp
next
  case (Cons v vs)
  let ?s = "b[t := Object (map (\<lambda>(k, n). (k, Data (HNum n))) proj) (Some 0)]"
  have i: "intact ?s"
    using assms(1,3) by (rule intact_update)
  have v: "field_value v"
    using Cons.prems by simp
  have "set_h t (field_text (field_of v)) (HNum 1) ?s =
      (Inr (), ?s[t := Object (put (field_text (field_of v)) (Data (HNum 1))
                    (map (\<lambda>(k, n). (k, Data (HNum n))) proj)) (Some 0)])"
    using assms(2) by (intro set_h_plain[OF i _ assms(3) _ _ field_value_key(2)[OF i v]]) auto
  then have "assign t v (HNum 1) ?s =
      (Inr (), b[t := Object (map (\<lambda>(k, n). (k, Data (HNum n)))
                    (put (field_text (field_of v)) 1 proj)) (Some 0)])"
    by (simp add: assign_def field_value_key(1)[OF i v] put_map)
  with Cons.IH[of "put (field_text (field_of v)) 1 proj"] Cons.prems show ?case
    by simp
qed

text \<open>The loop that copies the truthy filters.\<close>

lemma clean_loop:
  assumes "intact b" "c < length b" "2 \<le> c" "f < length b" "f \<noteq> c"
    and "b ! f = Object fps (Some 0)" "distinct (map fst fps)"
    and "\<forall>(k, p) \<in> set fps. k \<noteq> ''__proto__'' \<and> (\<exists>v. p = Data v)"
    and "set es \<subseteq> set fps" "\<forall>(k, p) \<in> set cps. \<exists>v. p = Data v"
  shows "for_each (clean_entry f c) (map fst es) (b[c := Object cps (Some 0)]) =
         (Inr (), b[c := Object (foldl (\<lambda>cps (k, p). if truthy_property p then put k p cps else cps)
                                   cps es) (Some 0)])"
  using assms(9,10)
proof (induction es arbitrary: cps)
  case Nil
  then show ?case by simp
next
  case (Cons e es)
  obtain k p where e: "e = (k, p)"
    by (cases e)
  let ?s = "b[c := Object cps (Some 0)]"
  have i: "intact ?s"
    using assms(1,3) by (rule intact_update)
  from intact_cells[OF i] obtain n where n: "length ?s = Suc (Suc n)"
    and c0: "?s ! 0 = Object (map (\<lambda>(name, b). (name, builtin_property b)) Object_prototype) None"
    by blast
  have kp: "(k, p) \<in> set fps"
    using Cons.prems(1) e by simp
  with assms(8) obtain v where v: "p = Data v" and k: "k \<noteq> ''__proto__''"
    by auto
  have "map_of fps k = Some p"
    using assms(7) kp by simp
  moreover have sf: "?s ! f = Object fps (Some 0)" "f < length ?s"
    using assms(4,5,6) by simp_all
  ultimately have g: "get_h ?s f k = v"
    unfolding get_h_def n find_prop_two[OF sf(2,1) c0] using v by simp
  have "set_h c k v ?s = (Inr (), ?s[c := Object (put k (Data v) cps) (Some 0)])"
    using assms(2) Cons.prems(2) by (intro set_h_plain[OF i _ assms(3) _ _ k]) auto
  then have step: "clean_entry f c k ?s =
      (Inr (), b[c := Object (if truthy_property p then put k p cps else cps) (Some 0)])"
    by (simp add: clean_entry_def g v)
  have "\<forall>(k', p') \<in> set (if truthy_property p then put k p cps else cps). \<exists>v. p' = Data v"
    using Cons.prems(2) v entries_put[of "\<lambda>k' p'. \<exists>v. p' = Data v" k p cps] by auto
  with Cons.IH[of "if truthy_property p then put k p cps else cps"] Cons.prems(1) step e
  show ?case
    by simp
qed

lemma foldl_clean_read:
  assumes "\<forall>(k, p) \<in> set es. truthy_pred (g p) = truthy_property p"
  shows "map (\<lambda>(k, p). (k, g p))
           (foldl (\<lambda>cps (k, p). if truthy_property p then put k p cps else cps) cps es) =
         foldl (\<lambda>cf (k, v). if truthy_pred v then put k v cf else cf)
           (map (\<lambda>(k, p). (k, g p)) cps) (map (\<lambda>(k, p). (k, g p)) es)"
  using assms
proof (induction es arbitrary: cps)
  case Nil
  then show ?case by simp
next
  case (Cons e es)
  obtain k p where e: "e = (k, p)"
    by (cases e)
  from Cons.prems have t: "truthy_pred (g p) = truthy_property p"
    unfolding e by simp
  from Cons.prems have rest: "\<forall>(k, p) \<in> set es. truthy_pred (g p) = truthy_property p"
    by simp
  show ?case
    unfolding e using Cons.IH[OF rest, of "if truthy_property p then put k p cps else cps"] t
    by (simp add: put_map)
qed

lemma filter_value_truthy:
  "filter_value s f p \<Longrightarrow> truthy_pred (read_value s p) = truthy_property p"
  by (auto simp: filter_value_def read_value_def)

lemma foldl_subset_entries:
  "set (foldl (\<lambda>cps (k, p). if truthy_property p then put k p cps else cps) cps es)
     \<subseteq> set cps \<union> set es"
proof (induction es arbitrary: cps)
  case Nil
  then show ?case by simp
next
  case (Cons e es)
  obtain k p where e: "e = (k, p)"
    by (cases e)
  show ?case
    unfolding e using Cons.IH[of "if truthy_property p then put k p cps else cps"]
      set_put[of k p cps]
    by (auto split: if_splits)
qed

lemma extends_elements: "extends s s' \<Longrightarrow> a < length s \<Longrightarrow> elements s' a = elements s a"
  by (simp add: extends_def elements_def)

lemma queryMongo_h_refines:
  assumes i: "intact s" and fa: "fields_array s arr" and fo: "filter_object s f"
  shows "\<exists>s'. queryMongo_h W arr f s = (queryMongo W (read_fields s arr) (read_filters s f), s') \<and>
           extends s s'"
proof -
  from fa obtain vs where arr: "arr < length s" and vs: "s ! arr = Array vs"
      "\<forall>v \<in> set vs. field_value v"
    by (auto simp: fields_array_def)
  from fo obtain fps where f: "f < length s" "2 \<le> f" and fps: "s ! f = Object fps (Some 0)"
      "distinct (map fst fps)" "\<forall>(k, p) \<in> set fps. k \<noteq> ''__proto__'' \<and> filter_value s f p"
    by (auto simp: filter_object_def)
  have l: "2 \<le> length s"
    using i by (simp add: intact_def)
  define proj where "proj = foldl (\<lambda>proj f. put (field_text f) (1::nat) proj) [] (map field_of vs)"
  define cps where "cps = foldl (\<lambda>cps (k, p). if truthy_property p then put k p cps else cps) [] fps"
  let ?p = "length s"
  let ?c = "Suc (length s)"
  let ?s1 = "s @ [Object [] (Some 0)]"
  let ?s2 = "?s1[?p := Object (map (\<lambda>(k, n). (k, Data (HNum n))) proj) (Some 0)]"
  let ?s3 = "?s2 @ [Object [] (Some 0)]"
  let ?s4 = "?s3[?c := Object cps (Some 0)]"
  have i1: "intact ?s1"
    using i extends_append by (rule extends_intact)
  have e1: "elements s arr = vs"
    using arr vs(1) by (simp add: elements_def)
  have "for_each (\<lambda>f. assign ?p f (HNum 1)) vs
      (?s1[?p := Object (map (\<lambda>(k, n). (k, Data (HNum n))) []) (Some 0)]) = (Inr (), ?s2)"
    unfolding proj_def using l by (intro projection_loop[OF i1 _ _ vs(2)]) simp_all
  then have run1: "for_each (\<lambda>f. assign ?p f (HNum 1)) vs ?s1 = (Inr (), ?s2)"
    by simp
  have i2: "intact ?s2"
    using i1 l by (intro intact_update) simp_all
  have i3: "intact ?s3"
    using i2 extends_append by (rule extends_intact)
  have f3: "?s3 ! f = Object fps (Some 0)"
    using f fps(1) by (simp add: nth_append)
  have k3: "own_keys ?s3 f = map fst fps"
    using f f3 by (simp add: own_keys_def own_def)
  have data: "\<forall>(k, p) \<in> set fps. k \<noteq> ''__proto__'' \<and> (\<exists>v. p = Data v)"
    using fps(3) by (auto simp: filter_value_def)
  have same: "?s3[?c := Object [] (Some 0)] = ?s3"
    by (simp add: list_eq_iff_nth_eq nth_append nth_list_update)
  have "for_each (clean_entry f ?c) (map fst fps) (?s3[?c := Object [] (Some 0)]) = (Inr (), ?s4)"
    unfolding cps_def using f l f3
    by (intro clean_loop[OF i3 _ _ _ _ _ fps(2) data]) simp_all
  then have run2: "for_each (clean_entry f ?c) (own_keys ?s3 f) ?s3 = (Inr (), ?s4)"
    unfolding same k3 .
  have run: "then_h (alloc (Object [] (Some 0))) (\<lambda>projection.
           then_h (for_each (\<lambda>f. assign projection f (HNum 1)) (elements s arr)) (\<lambda>u.
           then_h (alloc (Object [] (Some 0))) (\<lambda>cleanFilters.
           then_h (\<lambda>s'. for_each (clean_entry f cleanFilters) (own_keys s' f) s') (\<lambda>u.
           return_h (projection, cleanFilters))))) s = (Inr (?p, ?c), ?s4)"
    using run1 run2 by (simp add: then_h_def alloc_def return_h_def e1)
  have keys: "own_keys ?s4 ?p = map fst proj"
    by (simp add: own_keys_def own_def nth_append comp_def split_def)
  have sub: "set cps \<subseteq> set fps"
    unfolding cps_def using foldl_subset_entries[of "[]" fps] by simp
  have fr: "length s \<le> length ?s4" "\<forall>a < length s. a \<noteq> f \<longrightarrow> ?s4 ! a = s ! a"
    by (simp_all add: nth_append)
  have rv: "read_value ?s4 p = read_value s p" if "(k, p) \<in> set fps" for k p
    using that fps(3) by (intro read_value_frame[OF _ fr]) auto
  have "read_filters ?s4 ?c = map (\<lambda>(k, p). (k, read_value ?s4 p)) cps"
    by (simp add: read_filters_def own_def)
  also have "\<dots> = map (\<lambda>(k, p). (k, read_value s p)) cps"
    using sub rv by (intro map_cong) auto
  also have "\<dots> = foldl (\<lambda>cf (k, v). if truthy_pred v then put k v cf else cf) []
      (map (\<lambda>(k, p). (k, read_value s p)) fps)"
    unfolding cps_def using fps(3) filter_value_truthy
    by (subst foldl_clean_read) auto
  also have "map (\<lambda>(k, p). (k, read_value s p)) fps = read_filters s f"
    using f fps(1) by (simp add: read_filters_def own_def)
  finally have clean: "read_filters ?s4 ?c =
      foldl (\<lambda>cf (k, v). if truthy_pred v then put k v cf else cf) [] (read_filters s f)" .
  have fields: "read_fields s arr = map field_of vs"
    by (simp add: read_fields_def e1)
  define s4 where "s4 = ?s4"
  have "extends s s4"
    unfolding s4_def by (simp add: extends_def nth_append)
  moreover have keys4: "own_keys s4 ?p = map fst proj"
    unfolding s4_def by (rule keys)
  moreover have clean4: "read_filters s4 ?c =
      foldl (\<lambda>cf (k, v). if truthy_pred v then put k v cf else cf) [] (read_filters s f)"
    unfolding s4_def by (rule clean)
  moreover have "queryMongo_h W arr f s = (queryMongo W (read_fields s arr) (read_filters s f), s4)"
    unfolding queryMongo_h_def run s4_def[symmetric]
    by (simp add: queryMongo_def Let_def proj_def keys4 clean4 fields)
  ultimately show ?thesis
    by blast
qed

subsection \<open>Turns\<close>

lemma and_then_pure: "and_then (pure (Inr x)) f = f x"
  by (simp add: and_then_def pure_def split: prod.splits)

lemma and_then_raise: "and_then (pure (Inl e)) f = ([], Inl e)"
  by (simp add: and_then_def pure_def)

lemma show_logs_turn_h_refines:
  assumes "intact s"
  shows "\<exists>s'. show_logs_turn_h W q s = (show_logs_turn W FIELD_ALIASES q, s') \<and> extends s s'"
proof -
  from extractFiltersOnly_h_refines[OF assms, of q] obtain r s' where
    run: "extractFiltersOnly_h q s = (r, s')" and ext: "extends s s'"
    and res: "case r of Inl e \<Rightarrow> extractFiltersOnly FIELD_ALIASES q = Inl e
              | Inr f \<Rightarrow> filter_object s' f \<and>
                  extractFiltersOnly FIELD_ALIASES q = Inr (read_filters s' f)"
    by blast
  show ?thesis
  proof (cases r)
    case (Inl e)
    with run res ext show ?thesis
      by (simp add: show_logs_turn_h_def show_logs_turn_def and_then_raise)
  next
    case (Inr f)
    with run res ext show ?thesis
      by (simp add: show_logs_turn_h_def show_logs_turn_def and_then_pure)
  qed
qed

lemma list_unique_turn_h_refines:
  assumes "intact s"
  shows "list_unique_turn_h W captured s = (list_unique_turn W FIELD_ALIASES captured, s)"
  by (simp add: list_unique_turn_h_def list_unique_turn_def unique_field_def Let_def
      resolve_h_field[OF assms] resolve_h_key[OF assms] and_then_pure)

lemma structured_turn_h_refines:
  assumes "intact s"
  shows "\<exists>s'. structured_turn_h W q s = (structured_turn W FIELD_ALIASES q, s') \<and> extends s s'"
proof -
  from extractFieldsAndFilters_h_refines[OF assms, of q] obtain r s1 where
    run: "extractFieldsAndFilters_h q s = (r, s1)" and ext: "extends s s1"
    and res: "case r of Inl e \<Rightarrow> extractFieldsAndFilters FIELD_ALIASES q = Inl e
              | Inr (arr, f) \<Rightarrow> fields_array s1 arr \<and> filter_object s1 f \<and>
                  extractFieldsAndFilters FIELD_ALIASES q =
                    Inr \<lparr>the_fields = read_fields s1 arr, the_filters = read_filters s1 f\<rparr>"
    by blast
  show ?thesis
  proof (cases r)
    case (Inl e)
    with run res ext show ?thesis
      by (simp add: structured_turn_h_def structured_turn_def and_then_raise)
  next
    case (Inr pair)
    obtain arr f where pair: "pair = (arr, f)"
      by (cases pair)
    from res Inr pair have fa: "fields_array s1 arr" and fo: "filter_object s1 f"
      and pure: "extractFieldsAndFilters FIELD_ALIASES q =
          Inr \<lparr>the_fields = read_fields s1 arr, the_filters = read_filters s1 f\<rparr>"
      by simp_all
    have i1: "intact s1"
      using assms ext by (rule extends_intact)
    have len: "(elements s1 arr = []) = (read_fields s1 arr = [])"
      by (simp add: read_fields_def)
    show ?thesis
    proof (cases "length (read_fields s1 arr) = 0")
      case True
      with run Inr pair pure ext len show ?thesis
        by (simp add: structured_turn_h_def structured_turn_def and_then_pure)
    next
      case False
      from queryMongo_h_refines[OF i1 fa fo, of W] obtain s2 where
        q: "queryMongo_h W arr f s1 =
              (queryMongo W (read_fields s1 arr) (read_filters s1 f), s2)"
        and ext2: "extends s1 s2"
        by blast
      have "arr < length s1"
        using fa by (simp add: fields_array_def)
      with ext2 have same: "read_fields s2 arr = read_fields s1 arr"
        by (simp add: read_fields_def extends_elements)
      have "extends s s2"
        using ext ext2 by (rule extends_trans)
      with False run Inr pair pure len q same show ?thesis
        by (simp add: structured_turn_h_def structured_turn_def and_then_pure cong: if_cong)
    qed
  qed
qed

lemma try_block_h_refines:
  assumes "intact s"
  shows "\<exists>s'. try_block_h W q s = (try_block W FIELD_ALIASES q, s') \<and> extends s s'"
  using show_logs_turn_h_refines[OF assms, of W q] structured_turn_h_refines[OF assms, of W q]
    list_unique_turn_h_refines[OF assms, of W]
  by (auto simp: try_block_h_def try_block_def extends_refl split: option.splits)

text \<open>A turn on the store has the effects of the turn of the function of the line, and
  leaves every cell that was there as it was.\<close>

lemma turn_h_refines:
  assumes "intact s"
  shows "\<exists>s'. turn_h W q s = map_option (\<lambda>(es, A). (es, s')) (turn W FIELD_ALIASES q) \<and>
           extends s s'"
proof -
  from try_block_h_refines[OF assms, of W q] obtain s' where
    "try_block_h W q s = (try_block W FIELD_ALIASES q, s')" "extends s s'"
    by blast
  then show ?thesis
    by (intro exI[of _ s']) (simp add: turn_h_def turn_def Let_def)
qed

lemma main_h_refines:
  assumes "intact s"
  shows "\<exists>s'. main_h s turns = (fst (main FIELD_ALIASES turns), s') \<and> extends s s'"
  using assms
proof (induction turns arbitrary: s)
  case Nil
  then show ?case by (simp add: extends_refl)
next
  case (Cons t turns)
  obtain W q where t: "t = (W, q)"
    by (cases t)
  from turn_h_refines[OF Cons.prems, of W q] obtain s1 where
    run: "turn_h W q s = map_option (\<lambda>(es, A). (es, s1)) (turn W FIELD_ALIASES q)"
    and ext: "extends s s1"
    by blast
  show ?case
  proof (cases "turn W FIELD_ALIASES q")
    case None
    with run t show ?thesis
      by (simp add: extends_refl)
  next
    case (Some r)
    obtain es A' where r: "r = (es, A')"
      by (cases r)
    with Some have A': "A' = FIELD_ALIASES"
      by (simp add: turn_keeps_aliases)
    from Cons.IH[OF extends_intact[OF Cons.prems ext]] obtain s2 where
      rest: "main_h s1 turns = (fst (main FIELD_ALIASES turns), s2)" and ext2: "extends s1 s2"
      by blast
    have "extends s s2"
      using ext ext2 by (rule extends_trans)
    with run Some r A' rest t show ?thesis
      by (simp split: prod.splits)
  qed
qed

lemma main_h_intact: "intact (snd (main_h initial_store turns))"
  using main_h_refines[OF intact_initial, of turns] intact_initial
  by (auto intro: extends_intact)

lemma filters_result_pure:
  assumes "intact s"
  shows "filters_result (extractFiltersOnly_h q s) = extractFiltersOnly FIELD_ALIASES q"
proof -
  from extractFiltersOnly_h_refines[OF assms, of q] obtain r s' where
    "extractFiltersOnly_h q s = (r, s')"
    "case r of Inl e \<Rightarrow> extractFiltersOnly FIELD_ALIASES q = Inl e
     | Inr f \<Rightarrow> filter_object s' f \<and> extractFiltersOnly FIELD_ALIASES q = Inr (read_filters s' f)"
    by blast
  then show ?thesis
    by (cases r) (simp_all add: filters_result_def)
qed

lemma parsed_result_pure:
  assumes "intact s"
  shows "parsed_result (extractFieldsAndFilters_h q s) = extractFieldsAndFilters FIELD_ALIASES q"
proof -
  from extractFieldsAndFilters_h_refines[OF assms, of q] obtain r s' where
    "extractFieldsAndFilters_h q s = (r, s')"
    "case r of Inl e \<Rightarrow> extractFieldsAndFilters FIELD_ALIASES q = Inl e
     | Inr (arr, f) \<Rightarrow> fields_array s' arr \<and> filter_object s' f \<and>
         extractFieldsAndFilters FIELD_ALIASES q =
           Inr \<lparr>the_fields = read_fields s' arr, the_filters = read_filters s' f\<rparr>"
    by blast
  then show ?thesis
    by (cases r) (auto simp: parsed_result_def)
qed

lemma turn_h_effects:
  assumes "intact s"
  shows "map_option fst (turn_h W q s) = map_option fst (turn W FIELD_ALIASES q)"
  using turn_h_refines[OF assms, of W q]
  by (auto simp: option.map_comp comp_def split_def)

lemma try_block_h_branch: "try_block_h W q s = branch_h (classify q) W q s"
  by (simp add: try_block_h_def branch_h_def classify_def split: option.splits)

subsection \<open>The end of a fallback turn\<close>

lemma answer_effects_no_results: "Print NoMatchingLogs \<notin> set (answer_effects W pr)"
  by (simp add: answer_effects_def split: sum.splits)

section \<open>The classifier\<close>

text \<open>
  C1. The decision of the classifier follows the order of the specification, first match
  winning, letter case aside: an input that begins \<^verbatim>\<open>show [all] logs\<close> is show-all-logs,
  whatever follows; otherwise an input \<^verbatim>\<open>list unique <field>\<close> is list-unique-field;
  otherwise an input with a leading token \<^verbatim>\<open>list\<close>, \<^verbatim>\<open>show\<close> or \<^verbatim>\<open>find\<close> is
  structured-list; every other input is semantic-fallback. The input is the trimmed line
  that \<^verbatim>\<open>readline.question\<close> returns.
\<close>

theorem classifier_decision_order:
  assumes "trim q = q"
  shows "classify q = decision q"
  unfolding classify_def decision_def isShowLogsQuery_def
  using assms
  by (simp only: test_show_logs match_list_unique test_verb)

theorem classifier_decision_order_witness:
  "trim ''Show ALL logs for deviceid=ABC123'' = ''Show ALL logs for deviceid=ABC123'' \<and>
   decision ''Show ALL logs for deviceid=ABC123'' = ShowAllLogs \<and>
   decision ''LIST unique ward'' = ListUniqueField \<and>
   decision ''find deviceid and model'' = StructuredList \<and>
   decision ''What errors occurred yesterday?'' = SemanticFallback"
proof -
  have t1: "trim ''Show ALL logs for deviceid=ABC123'' = ''Show ALL logs for deviceid=ABC123''"
    by code_simp
  have t2: "trim ''LIST unique ward'' = ''LIST unique ward''"
    by code_simp
  have t3: "trim ''find deviceid and model'' = ''find deviceid and model''"
    by code_simp
  have t4: "trim ''What errors occurred yesterday?'' = ''What errors occurred yesterday?''"
    by code_simp
  have c1: "classify ''Show ALL logs for deviceid=ABC123'' = ShowAllLogs"
    by code_simp
  have c2: "classify ''LIST unique ward'' = ListUniqueField"
    by code_simp
  have c3: "classify ''find deviceid and model'' = StructuredList"
    by code_simp
  have c4: "classify ''What errors occurred yesterday?'' = SemanticFallback"
    by code_simp
  show ?thesis
    using t1 c1 c2 c3 c4 classifier_decision_order[OF t1] classifier_decision_order[OF t2]
      classifier_decision_order[OF t3] classifier_decision_order[OF t4]
    by simp
qed

section \<open>The filter normalizer\<close>




section \<open>The full dump\<close>

text \<open>
  C7. A turn of \<^verbatim>\<open>show logs\<close> asks storage for the filtered records with a cap of 50
  and displays at most 50 of them; each displayed record is the stored record without its
  \<^verbatim>\<open>embedding\<close> field, every other field as stored and in the stored order.
\<close>

theorem full_dump_capped_and_stripped:
  assumes "isShowLogsQuery question"
    and "extractFiltersOnly A question = Inr flt"
    and "db_find W flt None = Inr stored"
  shows "\<exists>shown.
           turn W A question =
             Some (MongoFind flt None 50 #
                   (if shown = [] then [Print NoMatchingLogs]
                    else map (\<lambda>(i, d). Print (LogEntry (Suc i) d)) (enumerate 0 shown)), A) \<and>
           length shown \<le> 50 \<and> length shown = min 50 (length stored) \<and>
           (\<forall>i < length shown.
              shown ! i = filter (\<lambda>kv. fst kv \<noteq> ''embedding'') (stored ! i) \<and>
              map_of (shown ! i) = (map_of (stored ! i))(''embedding'' := None))"
proof (intro exI conjI allI impI)
  let ?shown = "map without_embedding (take 50 stored)"
  have "catch (show_logs_turn W A question) =
          MongoFind flt None 50 #
            (if ?shown = [] then [Print NoMatchingLogs]
             else map (\<lambda>(i, d). Print (LogEntry (Suc i) d)) (enumerate 0 ?shown))"
    using assms(2,3)
    by (simp add: show_logs_turn_def comp_defs and_then_Inr catch_def Let_def print_entries_eq
        enumerate_eq_zip zip_map2 split_def)
  then show "turn W A question =
             Some (MongoFind flt None 50 #
                   (if ?shown = [] then [Print NoMatchingLogs]
                    else map (\<lambda>(i, d). Print (LogEntry (Suc i) d)) (enumerate 0 ?shown)), A)"
    using show_logs_not_exit[OF assms(1)] assms(1)
    by (simp add: turn_def Let_def try_block_def)
  show "length ?shown \<le> 50" by simp
  show "length ?shown = min 50 (length stored)" by simp
next
  fix i assume "i < length (map without_embedding (take 50 stored))"
  then show "map without_embedding (take 50 stored) ! i =
      filter (\<lambda>kv. fst kv \<noteq> ''embedding'') (stored ! i)"
    by (simp add: without_embedding_def split_def)
next
  fix i assume "i < length (map without_embedding (take 50 stored))"
  then show "map_of (map without_embedding (take 50 stored) ! i) =
      (map_of (stored ! i))(''embedding'' := None)"
    by (simp add: without_embedding_map_of)
qed

theorem full_dump_capped_and_stripped_witness:
  "isShowLogsQuery ''show logs for deviceid=ABC123'' \<and>
   extractFiltersOnly FIELD_ALIASES ''show logs for deviceid=ABC123'' =
     Inr [(''DeviceId'', Exact ''ABC123'')] \<and>
   db_find example_world [(''DeviceId'', Exact ''ABC123'')] None =
     Inr [[(''DeviceId'', Str ''ABC123''), (''LogData'', Obj [(''Ward'', Str ''ICU'')]),
           (''embedding'', Arr [Num ''0.25'', Num ''-1''])],
          [(''DeviceId'', Str ''XYZ789'')]] \<and>
   (\<exists>shown.
      turn example_world FIELD_ALIASES ''show logs for deviceid=ABC123'' =
        Some (MongoFind [(''DeviceId'', Exact ''ABC123'')] None 50 #
              (if shown = [] then [Print NoMatchingLogs]
               else map (\<lambda>(i, d). Print (LogEntry (Suc i) d)) (enumerate 0 shown)),
              FIELD_ALIASES) \<and>
      length shown \<le> 50 \<and>
      length shown =
        min 50 (length [[(''DeviceId'', Str ''ABC123''), (''LogData'', Obj [(''Ward'', Str ''ICU'')]),
                         (''embedding'', Arr [Num ''0.25'', Num ''-1''])],
                        [(''DeviceId'', Str ''XYZ789'')]]) \<and>
      (\<forall>i < length shown.
         shown ! i = filter (\<lambda>kv. fst kv \<noteq> ''embedding'')
           ([[(''DeviceId'', Str ''ABC123''), (''LogData'', Obj [(''Ward'', Str ''ICU'')]),
              (''embedding'', Arr [Num ''0.25'', Num ''-1''])],
             [(''DeviceId'', Str ''XYZ789'')]] ! i) \<and>
         map_of (shown ! i) =
           (map_of ([[(''DeviceId'', Str ''ABC123''), (''LogData'', Obj [(''Ward'', Str ''ICU'')]),
              (''embedding'', Arr [Num ''0.25'', Num ''-1''])],
             [(''DeviceId'', Str ''XYZ789'')]] ! i))(''embedding'' := None)))"
proof -
  have h1: "isShowLogsQuery ''show logs for deviceid=ABC123''"
    by code_simp
  have h2: "extractFiltersOnly FIELD_ALIASES ''show logs for deviceid=ABC123'' =
      Inr [(''DeviceId'', Exact ''ABC123'')]"
    by code_simp
  have h3: "db_find example_world [(''DeviceId'', Exact ''ABC123'')] None =
     Inr [[(''DeviceId'', Str ''ABC123''), (''LogData'', Obj [(''Ward'', Str ''ICU'')]),
           (''embedding'', Arr [Num ''0.25'', Num ''-1''])],
          [(''DeviceId'', Str ''XYZ789'')]]"
    by (simp add: example_world_def)
  show ?thesis
    by (rule conjI[OF h1 conjI[OF h2 conjI[OF h3 full_dump_capped_and_stripped[OF h1 h2 h3]]]])
qed

section \<open>The similarity search of the fallback\<close>

text \<open>
  C9. The stage that \<^verbatim>\<open>searchSimilarLogs\<close> sends carries a filter only when a
  non-empty filter mapping is passed in, and no turn ever sends a similarity search with
  a filter: the fallback calls the search without a filter mapping, the other branches
  send no similarity search at all.
\<close>

theorem fallback_search_unfiltered:
  "fst (searchSimilarLogs W e arg) =
     [MongoAggregate \<lparr>vs_index = ''vector_index'', vs_path = ''embedding'', vs_queryVector = e,
                      vs_numCandidates = 100, vs_similarity = ''cosine'', vs_limit = 15,
                      vs_filter = (if arg = None \<or> arg = Some [] then None else arg)\<rparr>] \<and>
   (\<forall>es A' stage. turn W A q = Some (es, A') \<and> MongoAggregate stage \<in> set es \<longrightarrow>
       vs_filter stage = None)"
proof (intro conjI allI impI)
  show "fst (searchSimilarLogs W e arg) =
     [MongoAggregate \<lparr>vs_index = ''vector_index'', vs_path = ''embedding'', vs_queryVector = e,
                      vs_numCandidates = 100, vs_similarity = ''cosine'', vs_limit = 15,
                      vs_filter = (if arg = None \<or> arg = Some [] then None else arg)\<rparr>]"
    by (auto simp: searchSimilarLogs_def request_def Let_def split: option.splits)
next
  fix es A' stage
  assume h: "turn W A q = Some (es, A') \<and> MongoAggregate stage \<in> set es"
  then have "es = catch (try_block W A q)"
    by (auto simp: turn_def Let_def split: if_splits)
  with h have "MongoAggregate stage \<in> set (fst (try_block W A q))"
    using catch_set[of "try_block W A q"] by auto
  then show "vs_filter stage = None"
    by (auto dest: try_block_unfiltered simp: unfiltered_def)
qed

theorem fallback_search_unfiltered_witness:
  "turn example_world FIELD_ALIASES ''What errors occurred yesterday?'' =
     Some ([PostEmbeddings ''What errors occurred yesterday?'',
            MongoAggregate \<lparr>vs_index = ''vector_index'', vs_path = ''embedding'',
                            vs_queryVector = Arr [Num ''0.25'', Num ''-1''],
                            vs_numCandidates = 100, vs_similarity = ''cosine'', vs_limit = 15,
                            vs_filter = None\<rparr>,
            PostGenerate (prompt [] ''What errors occurred yesterday?''),
            Print (Answer ''No logs.'')],
           FIELD_ALIASES) \<and>
   vs_filter \<lparr>vs_index = ''vector_index'', vs_path = ''embedding'',
               vs_queryVector = Arr [Num ''0.25'', Num ''-1''],
               vs_numCandidates = 100, vs_similarity = ''cosine'', vs_limit = 15,
               vs_filter = None\<rparr> = None"
proof -
  have run: "turn example_world FIELD_ALIASES ''What errors occurred yesterday?'' =
     Some ([PostEmbeddings ''What errors occurred yesterday?'',
            MongoAggregate \<lparr>vs_index = ''vector_index'', vs_path = ''embedding'',
                            vs_queryVector = Arr [Num ''0.25'', Num ''-1''],
                            vs_numCandidates = 100, vs_similarity = ''cosine'', vs_limit = 15,
                            vs_filter = None\<rparr>,
            PostGenerate (prompt [] ''What errors occurred yesterday?''),
            Print (Answer ''No logs.'')],
           FIELD_ALIASES)"
    by code_simp
  from fallback_search_unfiltered[of example_world Undefined None FIELD_ALIASES
      "''What errors occurred yesterday?''"] run
  show ?thesis by simp
qed

section \<open>An empty context\<close>

text \<open>
  C8. When the similarity search returns no record, the context block is empty and the
  generator is still called: the text sent is the prompt with nothing between
  \<^verbatim>\<open>Context:\<close> and the two line breaks before \<^verbatim>\<open>Question:\<close>, followed by the original
  question. The turn ends with the answer (or the error of that call), not with a
  no-results message.
\<close>

theorem empty_context_still_generates:
  assumes "classify question = SemanticFallback"
    and "toLowerCase (trim question) \<noteq> ''exit''" and "toLowerCase (trim question) \<noteq> ''q''"
    and "post_embeddings W question = Inr body" and "\<not> nullish body"
    and "db_aggregate W \<lparr>vs_index = ''vector_index'', vs_path = ''embedding'',
            vs_queryVector = get_prop (prim_get W) body ''embedding'',
            vs_numCandidates = 100, vs_similarity = ''cosine'', vs_limit = 15,
            vs_filter = None\<rparr> = Inr []"
  shows "formatContext (prim_get W) [] = Inr [] \<and>
         (\<exists>sent ending.
            sent = ''You are an assistant helping debug medical device logs. Use the context to answer the user's question.\<newline>\<newline>Context:\<newline>\<newline>\<newline>Question: ''
                     @ question @ ''\<newline>\<newline>Answer:'' \<and>
            ending = answer_effects W sent \<and>
            Print NoMatchingLogs \<notin> set ending \<and>
            turn W A question =
              Some ([PostEmbeddings question,
                     MongoAggregate \<lparr>vs_index = ''vector_index'', vs_path = ''embedding'',
                        vs_queryVector = get_prop (prim_get W) body ''embedding'',
                        vs_numCandidates = 100, vs_similarity = ''cosine'', vs_limit = 15,
                        vs_filter = None\<rparr>,
                     PostGenerate sent] @ ending, A))"
proof -
  have p: "prompt [] question =
      ''You are an assistant helping debug medical device logs. Use the context to answer the user's question.\<newline>\<newline>Context:\<newline>\<newline>\<newline>Question: ''
                     @ question @ ''\<newline>\<newline>Answer:''"
    by (simp add: prompt_def nl_def)
  have "catch (fallback_turn W question) =
          [PostEmbeddings question,
                  MongoAggregate \<lparr>vs_index = ''vector_index'', vs_path = ''embedding'',
                     vs_queryVector = get_prop (prim_get W) body ''embedding'',
                     vs_numCandidates = 100, vs_similarity = ''cosine'', vs_limit = 15,
                     vs_filter = None\<rparr>,
                  PostGenerate (prompt [] question)] @ answer_effects W (prompt [] question)"
    using assms(4,5,6)
    by (simp add: fallback_turn_def generateEmbedding_def searchSimilarLogs_def askMistral_def
        comp_defs and_then_Inl and_then_Inr get_member_def formatContext_Nil catch_def
        answer_effects_def nullish_iff split: sum.splits)
  with assms(1,2,3) show ?thesis
    unfolding p
    by (simp add: turn_def Let_def try_block_fallback formatContext_Nil answer_effects_no_results)
qed

theorem empty_context_still_generates_witness:
  "classify ''What errors occurred yesterday?'' = SemanticFallback \<and>
   post_embeddings example_world ''What errors occurred yesterday?'' =
     Inr (Obj [(''embedding'', Arr [Num ''0.25'', Num ''-1''])]) \<and>
   formatContext (prim_get example_world) [] = Inr [] \<and>
   turn example_world FIELD_ALIASES ''What errors occurred yesterday?'' =
     Some ([PostEmbeddings ''What errors occurred yesterday?'',
            MongoAggregate \<lparr>vs_index = ''vector_index'', vs_path = ''embedding'',
                            vs_queryVector = Arr [Num ''0.25'', Num ''-1''],
                            vs_numCandidates = 100, vs_similarity = ''cosine'', vs_limit = 15,
                            vs_filter = None\<rparr>,
            PostGenerate ''You are an assistant helping debug medical device logs. Use the context to answer the user's question.\<newline>\<newline>Context:\<newline>\<newline>\<newline>Question: What errors occurred yesterday?\<newline>\<newline>Answer:'',
            Print (Answer ''No logs.'')],
           FIELD_ALIASES)"
proof -
  have h1: "classify ''What errors occurred yesterday?'' = SemanticFallback"
    by code_simp
  have h2: "toLowerCase (trim ''What errors occurred yesterday?'') \<noteq> ''exit''"
    by code_simp
  have h3: "toLowerCase (trim ''What errors occurred yesterday?'') \<noteq> ''q''"
    by code_simp
  have h4: "post_embeddings example_world ''What errors occurred yesterday?'' =
     Inr (Obj [(''embedding'', Arr [Num ''0.25'', Num ''-1''])])"
    by (simp add: example_world_def)
  have h5: "\<not> nullish (Obj [(''embedding'', Arr [Num ''0.25'', Num ''-1''])])"
    by simp
  have h6: "db_aggregate example_world \<lparr>vs_index = ''vector_index'', vs_path = ''embedding'',
            vs_queryVector = get_prop (prim_get example_world)
               (Obj [(''embedding'', Arr [Num ''0.25'', Num ''-1''])]) ''embedding'',
            vs_numCandidates = 100, vs_similarity = ''cosine'', vs_limit = 15,
            vs_filter = None\<rparr> = Inr []"
    by (simp add: example_world_def)
  have a: "answer_effects example_world pr = [Print (Answer ''No logs.'')]" for pr
    by (simp add: answer_effects_def example_world_def get_member_def obj_get_def)
  have g: "obj_get [(''embedding'', Arr [Num ''0.25'', Num ''-1''])] ''embedding'' =
      Arr [Num ''0.25'', Num ''-1'']"
    by (simp add: obj_get_def)
  from empty_context_still_generates[OF h1 h2 h3 h4 h5 h6, of FIELD_ALIASES] h1 h4
  show ?thesis
    by (simp add: a g)
qed

section \<open>No state between evaluations\<close>

text \<open>
  C10. Classification and extraction do not depend on what earlier turns did. After any
  history of turns, in any worlds, since the module was loaded: \<^verbatim>\<open>Object.prototype\<close> and
  the alias table are as they were then; the branch that a turn takes is the one of the
  intent \<open>classify q\<close>, which reads no object; each extractor returns the fields and the
  mapping that it returns after any other history, those of the function of the line; and
  a turn has the same effects.
\<close>

theorem extraction_independent_of_history:
  assumes "main_h initial_store turns = (es, s)" and "main_h initial_store turns' = (es', s')"
  shows "s ! 0 = initial_store ! 0 \<and> s ! 1 = initial_store ! 1 \<and>
         try_block_h W q s = branch_h (classify q) W q s \<and>
         filters_result (extractFiltersOnly_h q s) = filters_result (extractFiltersOnly_h q s') \<and>
         filters_result (extractFiltersOnly_h q s) = extractFiltersOnly FIELD_ALIASES q \<and>
         parsed_result (extractFieldsAndFilters_h q s) =
           parsed_result (extractFieldsAndFilters_h q s') \<and>
         parsed_result (extractFieldsAndFilters_h q s) = extractFieldsAndFilters FIELD_ALIASES q \<and>
         map_option fst (turn_h W q s) = map_option fst (turn_h W q s')"
proof -
  have i: "intact s" "intact s'"
    using main_h_intact[of turns] main_h_intact[of turns'] assms by simp_all
  then show ?thesis
    by (simp add: filters_result_pure parsed_result_pure turn_h_effects try_block_h_branch
        intact_def)
qed

theorem extraction_independent_of_history_witness:
  "length (snd (main_h initial_store
      [(example_world, ''list unique constructor''),
       (world_without_vector, ''show logs where ward=ICU''),
       (example_world, ''list deviceid and model where ward=icu'')])) = 9 \<and>
   snd (main_h initial_store
      [(example_world, ''list unique constructor''),
       (world_without_vector, ''show logs where ward=ICU''),
       (example_world, ''list deviceid and model where ward=icu'')]) ! 1 = initial_store ! 1 \<and>
   filters_result (extractFiltersOnly_h ''show logs for ward=icu''
     (snd (main_h initial_store
        [(example_world, ''list unique constructor''),
         (world_without_vector, ''show logs where ward=ICU''),
         (example_world, ''list deviceid and model where ward=icu'')]))) =
     Inr [(''LogData.Ward'', Pattern ''^icu$'' ''i'')] \<and>
   parsed_result (extractFieldsAndFilters_h ''list deviceid and model''
     (snd (main_h initial_store
        [(example_world, ''list unique constructor''),
         (world_without_vector, ''show logs where ward=ICU''),
         (example_world, ''list deviceid and model where ward=icu'')]))) =
     Inr \<lparr>the_fields = [Path ''DeviceId'', Path ''LogData.Model''], the_filters = []\<rparr>"
proof -
  let ?T = "[(example_world, ''list unique constructor''),
       (world_without_vector, ''show logs where ward=ICU''),
       (example_world, ''list deviceid and model where ward=icu'')]"
  have n: "length (snd (main_h initial_store ?T)) = 9"
    by code_simp
  have e1: "extractFiltersOnly FIELD_ALIASES ''show logs for ward=icu'' =
      Inr [(''LogData.Ward'', Pattern ''^icu$'' ''i'')]"
    by code_simp
  have e2: "extractFieldsAndFilters FIELD_ALIASES ''list deviceid and model'' =
     Inr \<lparr>the_fields = [Path ''DeviceId'', Path ''LogData.Model''], the_filters = []\<rparr>"
    by code_simp
  have h: "main_h initial_store ?T = (fst (main_h initial_store ?T), snd (main_h initial_store ?T))"
    "main_h initial_store [] = ([], initial_store)"
    by simp_all
  from extraction_independent_of_history[OF h, of example_world "''show logs for ward=icu''"]
  have c1: "snd (main_h initial_store ?T) ! 1 = initial_store ! 1"
    and c2: "filters_result (extractFiltersOnly_h ''show logs for ward=icu''
        (snd (main_h initial_store ?T))) = extractFiltersOnly FIELD_ALIASES ''show logs for ward=icu''"
    by blast+
  from extraction_independent_of_history[OF h, of example_world "''list deviceid and model''"]
  have c3: "parsed_result (extractFieldsAndFilters_h ''list deviceid and model''
        (snd (main_h initial_store ?T))) =
      extractFieldsAndFilters FIELD_ALIASES ''list deviceid and model''"
    by blast
  show ?thesis
    unfolding c2 c3 e1 e2 using n c1 by blast
qed

section \<open>Where the code leaves the specification\<close>

text \<open>
  C3. A failure of the embedding request, a body without the vector included, aborts the
  turn with a reported error, and the turn does not go on with an absent embedding. A
  request that raises does abort the turn (\<open>embedding_failure_aborts\<close>). A body without
  the vector does not: \<^verbatim>\<open>generateEmbedding\<close> of \<^verbatim>\<open>chatbot.js\<close> returns
  \<^verbatim>\<open>res.data.embedding\<close> unchecked (its namesake in \<^verbatim>\<open>ingest-logs.js\<close> raises
  "No embedding returned"), and the similarity search is sent with an undefined query
  vector in every world (\<open>missing_vector_search_sent\<close>). Where storage answers it, as
  below, the turn builds the context, calls the generator and prints its answer; no error
  is reported.
\<close>

theorem missing_vector_not_reported:
  "turn world_without_vector FIELD_ALIASES ''What errors occurred yesterday?'' =
     Some ([PostEmbeddings ''What errors occurred yesterday?'',
            MongoAggregate \<lparr>vs_index = ''vector_index'', vs_path = ''embedding'',
                            vs_queryVector = Undefined, vs_numCandidates = 100,
                            vs_similarity = ''cosine'', vs_limit = 15, vs_filter = None\<rparr>,
            PostGenerate (prompt [] ''What errors occurred yesterday?''),
            Print (Answer ''No logs.'')],
           FIELD_ALIASES)"
  by code_simp

text \<open>
  C4. The field list is split on commas and on the word \<^verbatim>\<open>and\<close>, never inside a token;
  the pieces are stripped, alias-resolved, and dropped when empty. The example of the
  specification comes out as stated (\<open>scenario_A\<close>), but the code splits on the letters
  \<^verbatim>\<open>and\<close> wherever they stand: of the field \<^verbatim>\<open>brand\<close> only \<^verbatim>\<open>br\<close> is left.
\<close>

theorem and_inside_token_splits:
  "extractFieldsAndFilters FIELD_ALIASES ''list brand and model'' =
     Inr \<lparr>the_fields = [Path ''br'', Path ''LogData.Model''], the_filters = []\<rparr>"
  by code_simp

text \<open>
  C5. The field of \<^verbatim>\<open>list unique <x>\<close> is \<open>x\<close> without the characters outside
  \<^verbatim>\<open>[a-zA-Z0-9_.]\<close>, alias-resolved, an unknown name passing through unchanged. That is
  so for every name (\<open>list_unique_field\<close>, \<open>resolve_passthrough\<close>) but two: the names
  \<^verbatim>\<open>constructor\<close> and \<^verbatim>\<open>__proto__\<close> are in no alias, yet the property read finds them in
  \<^verbatim>\<open>Object.prototype\<close> (\<open>resolve_inherited\<close>). For \<^verbatim>\<open>list unique constructor\<close> the
  distinct-value lookup is sent for the function \<^verbatim>\<open>Object\<close>, not for the field
  \<^verbatim>\<open>constructor\<close>.
\<close>

theorem unknown_name_not_passed_through:
  "turn example_world FIELD_ALIASES ''list unique constructor'' =
     Some ([MongoDistinct (Builtin (Fn ''Object'')),
            Print (UniqueHeading ''function Object() { [native code] }''),
            Print (UniqueValue ''ICU'')],
           FIELD_ALIASES)"
  by code_simp

text \<open>
  C6. The context template and the flattening of rows never raise, an absent nested path
  is printed as \<^verbatim>\<open>undefined\<close> in the template and gives the empty string in a row, and a
  row has one entry for each requested field. On log records and on fields that are
  strings that is so (\<open>formatContext_total\<close>, \<open>formatContext_absent_nested\<close>,
  \<open>flatten_rows_total\<close>, \<open>cell_absent_nested\<close>). For the requested field
  \<^verbatim>\<open>constructor\<close> the flattening raises: the resolved field is a function, which has no
  \<^verbatim>\<open>includes\<close> method, and the turn ends in the \<^verbatim>\<open>catch\<close> without a table.
\<close>

theorem flattening_raises:
  "turn example_world FIELD_ALIASES ''list constructor'' =
     Some ([MongoFind [] (Some [''function Object() { [native code] }'']) 100,
            PrintError ''f.includes is not a function''],
           FIELD_ALIASES)"
  by code_simp

end
